theory Spec2Isabelle
  imports Complex_Main "HOL-Library.Word" "HOL-Library.AList"
begin

section \<open>Raster images as Pillow presents them\<close>

text \<open>
  The scripts of \<^verbatim>\<open>SatMapModifier/source/scripts\<close> work on Pillow images. An image has a
  mode, a size and one pixel per coordinate; channels are 8-bit. The two modes the
  slicer and the stitcher create themselves are \<^verbatim>\<open>RGB\<close> and \<^verbatim>\<open>RGBA\<close>, and the model
  is restricted to them. The pixel function is read only inside the image's size.
\<close>

type_synonym u8 = "8 word"
type_synonym rgb = "u8 \<times> u8 \<times> u8"
type_synonym rgba = "u8 \<times> u8 \<times> u8 \<times> u8"

datatype mode = RGB | RGBA

datatype image =
    RGB_image nat nat "nat \<Rightarrow> nat \<Rightarrow> rgb"
  | RGBA_image nat nat "nat \<Rightarrow> nat \<Rightarrow> rgba"

fun im_mode :: "image \<Rightarrow> mode" where
  "im_mode (RGB_image w h p) = RGB"
| "im_mode (RGBA_image w h p) = RGBA"

fun im_width :: "image \<Rightarrow> nat" where
  "im_width (RGB_image w h p) = w"
| "im_width (RGBA_image w h p) = w"

fun im_height :: "image \<Rightarrow> nat" where
  "im_height (RGB_image w h p) = h"
| "im_height (RGBA_image w h p) = h"

text \<open>Pillow's conversion between the two modes: an opaque alpha is added, or the
  alpha is dropped.\<close>

fun rgb_to_rgba :: "rgb \<Rightarrow> rgba" where
  "rgb_to_rgba (r, g, b) = (r, g, b, 255)"

fun rgba_to_rgb :: "rgba \<Rightarrow> rgb" where
  "rgba_to_rgb (r, g, b, a) = (r, g, b)"

text \<open>The pixel at \<open>(x, y)\<close>, read as colour plus alpha (an \<^verbatim>\<open>RGB\<close> pixel is opaque).\<close>

fun pixel_rgba :: "image \<Rightarrow> nat \<Rightarrow> nat \<Rightarrow> rgba" where
  "pixel_rgba (RGB_image w h p) x y = rgb_to_rgba (p x y)"
| "pixel_rgba (RGBA_image w h p) x y = p x y"

fun convert :: "mode \<Rightarrow> image \<Rightarrow> image" where
  "convert RGB (RGB_image w h p) = RGB_image w h p"
| "convert RGB (RGBA_image w h p) = RGB_image w h (\<lambda>x y. rgba_to_rgb (p x y))"
| "convert RGBA (RGB_image w h p) = RGBA_image w h (\<lambda>x y. rgb_to_rgba (p x y))"
| "convert RGBA (RGBA_image w h p) = RGBA_image w h p"

text \<open>\<^verbatim>\<open>Image.new(mode, (w, h), color)\<close>: the mode is decided by the caller from the
  colour tuple, a 4-tuple giving \<^verbatim>\<open>RGBA\<close>.\<close>

datatype fill_color = Fill3 rgb | Fill4 rgba

fun Image_new :: "fill_color \<Rightarrow> nat \<Rightarrow> nat \<Rightarrow> image" where
  "Image_new (Fill3 c) w h = RGB_image w h (\<lambda>x y. c)"
| "Image_new (Fill4 c) w h = RGBA_image w h (\<lambda>x y. c)"

fun fill_mode :: "fill_color \<Rightarrow> mode" where
  "fill_mode (Fill3 c) = RGB"
| "fill_mode (Fill4 c) = RGBA"

text \<open>\<^verbatim>\<open>img.crop((left, top, right, bottom))\<close>: the region keeps the mode; whatever lies
  outside the source reads as zero.\<close>

fun crop :: "image \<Rightarrow> nat \<times> nat \<times> nat \<times> nat \<Rightarrow> image" where
  "crop (RGB_image w h p) (left, top', right, bottom) =
     RGB_image (right - left) (bottom - top')
       (\<lambda>x y. if left + x < w \<and> top' + y < h then p (left + x) (top' + y) else (0, 0, 0))"
| "crop (RGBA_image w h p) (left, top', right, bottom) =
     RGBA_image (right - left) (bottom - top')
       (\<lambda>x y. if left + x < w \<and> top' + y < h then p (left + x) (top' + y) else (0, 0, 0, 0))"

text \<open>\<^verbatim>\<open>dst.paste(src, (ox, oy))\<close> without a mask: the pixels of \<open>src\<close> replace those of
  \<open>dst\<close> where \<open>src\<close> lies, converted to the mode of \<open>dst\<close>; what falls outside \<open>dst\<close>
  is clipped.\<close>

definition covers :: "image \<Rightarrow> int \<times> int \<Rightarrow> nat \<Rightarrow> nat \<Rightarrow> bool" where
  "covers src off x y \<longleftrightarrow>
     fst off \<le> int x \<and> int x < fst off + int (im_width src) \<and>
     snd off \<le> int y \<and> int y < snd off + int (im_height src)"

fun paste :: "image \<Rightarrow> image \<Rightarrow> int \<times> int \<Rightarrow> image" where
  "paste (RGB_image w h p) src off =
     RGB_image w h (\<lambda>x y. if covers src off x y
        then rgba_to_rgb (pixel_rgba src (nat (int x - fst off)) (nat (int y - snd off)))
        else p x y)"
| "paste (RGBA_image w h p) src off =
     RGBA_image w h (\<lambda>x y. if covers src off x y
        then pixel_rgba src (nat (int x - fst off)) (nat (int y - snd off))
        else p x y)"

section \<open>Strings, files, errors and console output\<close>

text \<open>
  A Python \<^verbatim>\<open>str\<close> is a sequence of Unicode code points, modelled as a list of
  natural numbers. ASCII text is written as an Isabelle string and converted.
\<close>

type_synonym py_str = "nat list"

definition str_of :: "string \<Rightarrow> py_str" where
  "str_of s = map of_char s"

text \<open>
  Paths are compared as written. At a path there is no regular file (nothing at all, or
  a directory), or a regular file: one that Pillow cannot identify, one whose header
  (the size) can be read while its pixel data cannot, or an encoded image.
  \<^verbatim>\<open>Image.open\<close> reads the header only; the pixel data is read on first use
  (\<^verbatim>\<open>crop\<close>, \<^verbatim>\<open>convert\<close>). Directories are not tracked beyond what \<^verbatim>\<open>os.makedirs\<close>
  needs; permissions and devices are outside the model. \<^verbatim>\<open>IOError\<close> is Python's
  \<^verbatim>\<open>OSError\<close>, the class of every error of the file system and of Pillow's decoders.
\<close>

datatype disk_file = Absent | Unreadable | Truncated nat nat | Encoded image

type_synonym fs = "py_str \<Rightarrow> disk_file"

fun is_regular_file :: "disk_file \<Rightarrow> bool" where
  "is_regular_file Absent = False"
| "is_regular_file Unreadable = True"
| "is_regular_file (Truncated w h) = True"
| "is_regular_file (Encoded img) = True"

datatype py_error = IOError | StopIteration | ValueError | ZeroDivisionError

datatype message =
    Error_opening_image py_str
  | Completed nat py_str
  | Warning_failed py_str
  | Saved_stitched py_str

fun Image_open :: "fs \<Rightarrow> py_str \<Rightarrow> py_error + disk_file" where
  "Image_open fs path =
     (case fs path of
        Absent \<Rightarrow> Inl IOError
      | Unreadable \<Rightarrow> Inl IOError
      | Truncated w h \<Rightarrow> Inr (Truncated w h)
      | Encoded img \<Rightarrow> Inr (Encoded img))"

fun file_size :: "disk_file \<Rightarrow> nat \<times> nat" where
  "file_size (Encoded img) = (im_width img, im_height img)"
| "file_size (Truncated w h) = (w, h)"
| "file_size Unreadable = (0, 0)"
| "file_size Absent = (0, 0)"

fun load :: "disk_file \<Rightarrow> py_error + image" where
  "load (Encoded img) = Inr img"
| "load (Truncated w h) = Inl IOError"
| "load Unreadable = Inl IOError"
| "load Absent = Inl IOError"

text \<open>\<^verbatim>\<open>os.makedirs(name, exist_ok=True)\<close>: it raises for the empty name, and when
  the name or one of the directories leading to it is a regular file; otherwise the
  directory is there afterwards. The paths in question are the name itself and each of
  its non-empty prefixes that is followed by a slash.\<close>

definition dir_prefixes :: "py_str \<Rightarrow> py_str list" where
  "dir_prefixes name =
     map (\<lambda>k. take k name) (filter (\<lambda>k. k = length name \<or> name ! k = 47) [1..<length name + 1])"

definition makedirs :: "fs \<Rightarrow> py_str \<Rightarrow> py_error + unit" where
  "makedirs fs name =
     (if name = [] \<or> list_ex (\<lambda>p. is_regular_file (fs p)) (dir_prefixes name)
      then Inl IOError else Inr ())"

text \<open>\<^verbatim>\<open>os.path.join\<close> on POSIX paths, for two components (\<open>47\<close> is the slash).\<close>

definition path_join :: "py_str \<Rightarrow> py_str \<Rightarrow> py_str" where
  "path_join a b =
     (if b \<noteq> [] \<and> hd b = 47 then b
      else if a = [] \<or> last a = 47 then a @ b
      else a @ [47] @ b)"

text \<open>\<^verbatim>\<open>str(n)\<close> for a natural number: its decimal digits, \<open>48\<close> being the digit zero.\<close>

definition digit_char :: "nat \<Rightarrow> nat" where
  "digit_char d = 48 + d"

fun str_nat :: "nat \<Rightarrow> py_str" where
  "str_nat n = (if n < 10 then [digit_char n] else str_nat (n div 10) @ [digit_char (n mod 10)])"

declare str_nat.simps [simp del]

section \<open>The tiler: \<^verbatim>\<open>image_slicer.slice_image\<close>\<close>

text \<open>\<^verbatim>\<open>math.ceil(a / b)\<close> for integers: the quotient is a correctly rounded double,
  whose ceiling is the exact one when both numbers are below \<open>2^53\<close>; the model computes
  it on the integers, and the properties below are stated for such numbers. A zero
  divisor raises before the ceiling is taken.\<close>

definition ceil_div :: "int \<Rightarrow> int \<Rightarrow> int" where
  "ceil_div a b = - ((- a) div b)"

text \<open>The file name \<^verbatim>\<open>f"{row}_{col}.png"\<close>.\<close>

definition tile_name :: "nat \<Rightarrow> nat \<Rightarrow> py_str" where
  "tile_name row col = str_nat row @ str_of ''_'' @ str_nat col @ str_of ''.png''"

definition chunk_box :: "nat \<Rightarrow> nat \<Rightarrow> nat \<Rightarrow> nat \<Rightarrow> nat \<Rightarrow> nat \<times> nat \<times> nat \<times> nat" where
  "chunk_box width height chunk_size row col =
     (let left = col * chunk_size;
          top' = row * chunk_size;
          right = min (left + chunk_size) width;
          bottom = min (top' + chunk_size) height
      in (left, top', right, bottom))"

text \<open>The body of the two loops up to the save: crop, and pad an edge piece.\<close>

definition make_chunk :: "image \<Rightarrow> nat \<Rightarrow> nat \<Rightarrow> nat \<Rightarrow> image" where
  "make_chunk img chunk_size row col =
     (let chunk = crop img (chunk_box (im_width img) (im_height img) chunk_size row col)
      in if (im_width chunk, im_height chunk) \<noteq> (chunk_size, chunk_size)
         then paste (Image_new (Fill4 (0, 0, 0, 0)) chunk_size chunk_size) chunk (0, 0)
         else chunk)"

text \<open>The grid positions in the order the loops visit them:
  \<^verbatim>\<open>for row in range(rows): for col in range(cols)\<close>.\<close>

definition grid_positions :: "nat \<Rightarrow> nat \<Rightarrow> (nat \<times> nat) list" where
  "grid_positions rows cols = concat (map (\<lambda>row. map (\<lambda>col. (row, col)) [0..<cols]) [0..<rows])"

text \<open>The loops, with the file system and \<^verbatim>\<open>chunk_count\<close> as state. The first crop
  loads the pixel data of the lazily opened source and raises when that fails. A chunk
  is saved as PNG, which keeps the mode and every pixel of an \<^verbatim>\<open>RGB\<close> or \<^verbatim>\<open>RGBA\<close>
  image.\<close>

fun slice_loop ::
  "disk_file \<Rightarrow> nat \<Rightarrow> py_str \<Rightarrow> (nat \<times> nat) list \<Rightarrow> fs \<times> nat \<Rightarrow> py_error + fs \<times> nat" where
  "slice_loop img chunk_size output_dir [] st = Inr st"
| "slice_loop img chunk_size output_dir ((row, col) # rest) (fs, chunk_count) =
     (case load img of
        Inl e \<Rightarrow> Inl e
      | Inr im \<Rightarrow>
          slice_loop img chunk_size output_dir rest
            (fs (path_join output_dir (tile_name row col) :=
                   Encoded (make_chunk im chunk_size row col)),
             chunk_count + 1))"

text \<open>\<^verbatim>\<open>slice_image(input_path, output_dir, chunk_size)\<close>. The result is the exception
  that leaves the function, or the file system and the lines printed on return. Of
  the printed lines the model keeps the error line and the final count; the progress
  lines are left out.\<close>

definition slice_image :: "fs \<Rightarrow> py_str \<Rightarrow> py_str \<Rightarrow> int \<Rightarrow> py_error + fs \<times> message list" where
  "slice_image fs input_path output_dir chunk_size =
     (case makedirs fs output_dir of
        Inl e \<Rightarrow> Inl e
      | Inr made \<Rightarrow>
     (case Image_open fs input_path of
        Inl e \<Rightarrow> Inr (fs, [Error_opening_image input_path])
      | Inr img \<Rightarrow>
          (let (width, height) = file_size img in
           if chunk_size = 0 then Inl ZeroDivisionError
           else
             (let cols = ceil_div (int width) chunk_size;
                  rows = ceil_div (int height) chunk_size
              in case slice_loop img (nat chunk_size) output_dir
                        (grid_positions (nat rows) (nat cols)) (fs, 0) of
                   Inl e \<Rightarrow> Inl e
                 | Inr (fs', chunk_count) \<Rightarrow> Inr (fs', [Completed chunk_count output_dir])))))"

text \<open>The sequence of files the loops write, in order, for a source that decodes.\<close>

definition slice_writes :: "image \<Rightarrow> nat \<Rightarrow> py_str \<Rightarrow> (py_str \<times> image) list" where
  "slice_writes img chunk_size output_dir =
     map (\<lambda>(row, col). (path_join output_dir (tile_name row col), make_chunk img chunk_size row col))
       (grid_positions (nat (ceil_div (int (im_height img)) (int chunk_size)))
                       (nat (ceil_div (int (im_width img)) (int chunk_size))))"

definition write_files :: "fs \<Rightarrow> (py_str \<times> image) list \<Rightarrow> fs" where
  "write_files fs ws = foldl (\<lambda>f (path, img). f (path := Encoded img)) fs ws"

text \<open>A place without any file.\<close>

definition no_files :: fs where
  "no_files = (\<lambda>path. Absent)"



text \<open>A 3 x 2 \<^verbatim>\<open>RGB\<close> picture whose pixels are all different, and a place holding it
  as \<^verbatim>\<open>in.bmp\<close>.\<close>

definition sample_image :: image where
  "sample_image = RGB_image 3 2 (\<lambda>x y. (word_of_nat x, word_of_nat y, 9))"

definition sample_dir :: fs where
  "sample_dir = no_files (str_of ''in.bmp'' := Encoded sample_image)"

section \<open>The tile locator: \<^verbatim>\<open>_stitch_brushed.parse_coords_from_name\<close> and
  \<^verbatim>\<open>arrange_by_coords\<close>\<close>

text \<open>
  In a \<^verbatim>\<open>str\<close> pattern \<^verbatim>\<open>\d\<close> matches every Unicode decimal digit, and \<^verbatim>\<open>int\<close> reads
  each of them by its decimal value. Which code points are decimal digits, and with
  which value, is decided by the Unicode database of the interpreter, which is not part
  of the repository: it is a parameter \<open>db\<close> of the functions below. Every such database
  agrees on ASCII: the code points 48 to 57 are the digits 0 to 9, and no other code
  point below 128 is a digit.
\<close>

type_synonym unicode_db = "nat \<Rightarrow> nat option"

definition ascii_digits :: "unicode_db \<Rightarrow> bool" where
  "ascii_digits db \<longleftrightarrow> (\<forall>c<128. db c = (if 48 \<le> c \<and> c \<le> 57 then Some (c - 48) else None))"

definition is_digit :: "unicode_db \<Rightarrow> nat \<Rightarrow> bool" where
  "is_digit db c \<longleftrightarrow> db c \<noteq> None"

text \<open>\<^verbatim>\<open>os.path.basename\<close>: what follows the last slash.\<close>

definition basename :: "py_str \<Rightarrow> py_str" where
  "basename p = rev (takeWhile (\<lambda>c. c \<noteq> 47) (rev p))"

text \<open>\<^verbatim>\<open>os.path.splitext(p)[0]\<close>: the path without its extension. The extension starts
  at the last dot (\<open>46\<close>) of the last component, unless only dots precede it there.\<close>

definition splitext_root :: "py_str \<Rightarrow> py_str" where
  "splitext_root p =
     (let name = basename p;
          stem = rev (tl (dropWhile (\<lambda>c. c \<noteq> 46) (rev name)))
      in if 46 \<in> set name \<and> list_ex (\<lambda>c. c \<noteq> 46) stem
         then take (length p - length name) p @ stem
         else p)"

text \<open>\<^verbatim>\<open>re.findall(r"-?\d+", s)\<close>: the scan goes left to right; at each position a
  match is an optional minus sign (\<open>45\<close>) followed by the longest run of digits, and the
  scan resumes after the match.\<close>

function findall_ints :: "unicode_db \<Rightarrow> py_str \<Rightarrow> py_str list" where
  "findall_ints db [] = []"
| "findall_ints db (c # cs) =
     (if is_digit db c
      then (c # takeWhile (is_digit db) cs) # findall_ints db (dropWhile (is_digit db) cs)
      else if c = 45 \<and> cs \<noteq> [] \<and> is_digit db (hd cs)
           then (c # takeWhile (is_digit db) cs) # findall_ints db (dropWhile (is_digit db) cs)
      else findall_ints db cs)"
  by pat_completeness auto
termination
  by (relation "measure (\<lambda>(db, s). length s)") (auto simp: length_dropWhile_le less_Suc_eq_le)

text \<open>\<^verbatim>\<open>int(s)\<close> for a match of the pattern.\<close>

definition digit_val :: "unicode_db \<Rightarrow> nat \<Rightarrow> nat" where
  "digit_val db c = (case db c of Some d \<Rightarrow> d | None \<Rightarrow> 0)"

definition digits_val :: "unicode_db \<Rightarrow> py_str \<Rightarrow> nat" where
  "digits_val db ds = foldl (\<lambda>a c. 10 * a + digit_val db c) 0 ds"

fun py_int :: "unicode_db \<Rightarrow> py_str \<Rightarrow> int" where
  "py_int db [] = 0"
| "py_int db (c # cs) =
     (if c = 45 then - int (digits_val db cs) else int (digits_val db (c # cs)))"

definition parse_coords_from_name :: "unicode_db \<Rightarrow> py_str \<Rightarrow> (int \<times> int) option" where
  "parse_coords_from_name db name =
     (let base = splitext_root (basename name);
          nums = findall_ints db base
      in if length nums \<ge> 2
         then (let row = py_int db (nums ! (length nums - 2));
                   col = py_int db (nums ! (length nums - 1))
               in Some (row, col))
         else None)"

text \<open>A Python dictionary keeps its keys in insertion order, and assigning to a key
  that is present keeps its place: \<^const>\<open>AList.update\<close> on an association list.\<close>

type_synonym layout = "((int \<times> int) \<times> py_str) list"

fun arrange_loop ::
  "unicode_db \<Rightarrow> py_str list \<Rightarrow> layout \<times> int set \<times> int set
     \<Rightarrow> (layout \<times> int set \<times> int set) option" where
  "arrange_loop db [] st = Some st"
| "arrange_loop db (f # files) (mapping, xs, ys) =
     (case parse_coords_from_name db f of
        None \<Rightarrow> None
      | Some (row, col) \<Rightarrow>
          arrange_loop db files (AList.update (col, row) f mapping, insert col xs, insert row ys))"

definition arrange_by_coords ::
  "unicode_db \<Rightarrow> py_str list \<Rightarrow> (layout \<times> int \<times> int \<times> int \<times> int) option" where
  "arrange_by_coords db files =
     (case arrange_loop db files ([], {}, {}) of
        None \<Rightarrow> None
      | Some (mapping, xs, ys) \<Rightarrow>
          if mapping = [] then None
          else (let min_x = Min xs; max_x = Max xs; min_y = Min ys; max_y = Max ys
                in Some (mapping, min_x, min_y, max_x, max_y)))"

section \<open>The fallback grid: \<^verbatim>\<open>_stitch_brushed.fallback_grid\<close>\<close>

text \<open>\<^verbatim>\<open>int(math.sqrt(n))\<close>: the integer square root (the double is exact enough for
  every file count below \<open>2^52\<close>), computed by counting the \<open>k \<ge> 1\<close> with \<open>k * k \<le> n\<close>.\<close>

definition floor_sqrt :: "nat \<Rightarrow> nat" where
  "floor_sqrt n = length (takeWhile (\<lambda>k. k * k \<le> n) [1..<Suc n])"

text \<open>\<^verbatim>\<open>math.ceil(math.sqrt(n))\<close>.\<close>

definition ceil_sqrt :: "nat \<Rightarrow> nat" where
  "ceil_sqrt n = (if floor_sqrt n * floor_sqrt n = n then floor_sqrt n else floor_sqrt n + 1)"

text \<open>The search \<^verbatim>\<open>for rows in range(1, int(math.sqrt(n)) + 2)\<close>, which keeps the last
  row count that divides \<open>n\<close>.\<close>

definition search_best :: "nat \<Rightarrow> (nat \<times> nat) option" where
  "search_best n =
     foldl (\<lambda>best rows. if n mod rows = 0 then Some (rows, n div rows) else best)
       None [1..<floor_sqrt n + 2]"

text \<open>The inner loop over the columns of one row, which \<^verbatim>\<open>break\<close>s once every file has
  a position, and the outer loop over the rows.\<close>

fun fill_row :: "py_str list \<Rightarrow> nat \<Rightarrow> nat list \<Rightarrow> layout \<times> nat \<Rightarrow> layout \<times> nat" where
  "fill_row files r [] st = st"
| "fill_row files r (c # cs) (mapping, idx) =
     (if idx \<ge> length files then (mapping, idx)
      else fill_row files r cs (AList.update (int c, int r) (files ! idx) mapping, idx + 1))"

definition fill_rows :: "py_str list \<Rightarrow> nat \<Rightarrow> nat \<Rightarrow> layout \<times> nat" where
  "fill_rows files rows cols = foldl (\<lambda>st r. fill_row files r [0..<cols] st) ([], 0) [0..<rows]"

definition fallback_grid :: "py_str list \<Rightarrow> py_error + (layout \<times> int \<times> int \<times> int \<times> int)" where
  "fallback_grid files =
     (let n = length files in
      case (case search_best n of
              None \<Rightarrow>
                (let cols = ceil_sqrt n in
                 if cols = 0 then Inl ZeroDivisionError
                 else Inr (nat (ceil_div (int n) (int cols)), cols))
            | Some (rows, cols) \<Rightarrow> Inr (rows, cols)) of
        Inl e \<Rightarrow> Inl e
      | Inr (rows, cols) \<Rightarrow>
          (let mapping = fst (fill_rows files rows cols)
           in Inr (mapping, 0, 0, int cols - 1, int rows - 1)))"

text \<open>The choice between the two in \<^verbatim>\<open>main\<close>: the coordinates when every name has them,
  the grid otherwise.\<close>

definition locate_tiles ::
  "unicode_db \<Rightarrow> py_str list \<Rightarrow> py_error + (layout \<times> int \<times> int \<times> int \<times> int)" where
  "locate_tiles db files =
     (case arrange_by_coords db files of
        None \<Rightarrow> fallback_grid files
      | Some arranged \<Rightarrow> Inr arranged)"


section \<open>The stitcher: \<^verbatim>\<open>_stitch_brushed.stitch\<close>\<close>

text \<open>\<^verbatim>\<open>Image.open(path)\<close> followed by the first use of the pixels (\<^verbatim>\<open>convert\<close>).\<close>

definition open_and_load :: "fs \<Rightarrow> py_str \<Rightarrow> py_error + image" where
  "open_and_load fs path = (case Image_open fs path of Inl e \<Rightarrow> Inl e | Inr im \<Rightarrow> load im)"

text \<open>\<^verbatim>\<open>Image.new\<close> with integer sizes: a negative size raises.\<close>

definition Image_new_checked :: "fill_color \<Rightarrow> int \<Rightarrow> int \<Rightarrow> py_error + image" where
  "Image_new_checked color w h =
     (if w < 0 \<or> h < 0 then Inl ValueError else Inr (Image_new color (nat w) (nat h)))"

text \<open>The paste loop over \<^verbatim>\<open>mapping.items()\<close>: a tile that fails to open or to load is
  reported and skipped.\<close>

fun paste_tiles ::
  "fs \<Rightarrow> mode \<Rightarrow> int \<Rightarrow> int \<Rightarrow> int \<Rightarrow> int \<Rightarrow> layout \<Rightarrow> image \<times> message list
     \<Rightarrow> image \<times> message list" where
  "paste_tiles fs mode min_x min_y tile_w tile_h [] st = st"
| "paste_tiles fs mode min_x min_y tile_w tile_h (((x, y), path) # rest) (stitched, out) =
     (case open_and_load fs path of
        Inl e \<Rightarrow>
          paste_tiles fs mode min_x min_y tile_w tile_h rest (stitched, out @ [Warning_failed path])
      | Inr tile \<Rightarrow>
          (let tile' = convert mode tile;
               px = (x - min_x) * tile_w;
               py = (y - min_y) * tile_h
           in paste_tiles fs mode min_x min_y tile_w tile_h rest
                (paste stitched tile' (px, py), out)))"

text \<open>The tile size: the given one, or the size of the first tile of the mapping, whose
  header is read outside any \<^verbatim>\<open>try\<close>.\<close>

definition tile_dims :: "fs \<Rightarrow> layout \<Rightarrow> int option \<Rightarrow> py_error + int \<times> int" where
  "tile_dims fs mapping tile_size =
     (case tile_size of
        Some t \<Rightarrow> Inr (t, t)
      | None \<Rightarrow>
          (case mapping of
             [] \<Rightarrow> Inl StopIteration
           | (key, first_tile_path) # rest \<Rightarrow>
               (case Image_open fs first_tile_path of
                  Inl e \<Rightarrow> Inl e
                | Inr im \<Rightarrow> Inr (int (fst (file_size im)), int (snd (file_size im))))))"

text \<open>\<^verbatim>\<open>stitch\<close> up to the end of the paste loop: the canvas and the warnings printed.\<close>

definition stitch_canvas ::
  "fs \<Rightarrow> layout \<Rightarrow> int \<Rightarrow> int \<Rightarrow> int \<Rightarrow> int \<Rightarrow> fill_color \<Rightarrow> int option
     \<Rightarrow> py_error + image \<times> message list" where
  "stitch_canvas fs mapping min_x min_y max_x max_y fill_color tile_size =
     (case tile_dims fs mapping tile_size of
        Inl e \<Rightarrow> Inl e
      | Inr (tile_w, tile_h) \<Rightarrow>
          (let cols = max_x - min_x + 1;
               rows = max_y - min_y + 1;
               total_w = cols * tile_w;
               total_h = rows * tile_h;
               mode = fill_mode fill_color
           in case Image_new_checked fill_color total_w total_h of
                Inl e \<Rightarrow> Inl e
              | Inr stitched \<Rightarrow>
                  Inr (paste_tiles fs mode min_x min_y tile_w tile_h mapping (stitched, []))))"

text \<open>\<^verbatim>\<open>out_path.lower().endswith('.bmp')\<close>. Lowering also changes characters outside
  ASCII, but none of them becomes a dot or one of the letters b, m, p, so lowering the
  ASCII capitals decides the same.\<close>

definition lower_char :: "nat \<Rightarrow> nat" where
  "lower_char c = (if 65 \<le> c \<and> c \<le> 90 then c + 32 else c)"

definition ends_with :: "py_str \<Rightarrow> py_str \<Rightarrow> bool" where
  "ends_with s suffix \<longleftrightarrow>
     length suffix \<le> length s \<and> drop (length s - length suffix) s = suffix"

text \<open>\<^verbatim>\<open>image.save(path)\<close> picks the file format from the extension by Pillow's
  registry of formats, which is not part of the repository: what ends up on disk, or
  the error raised, is a parameter \<open>save_as\<close>. A PNG or TIFF target keeps the image as
  it is.\<close>

type_synonym saver = "py_str \<Rightarrow> image \<Rightarrow> py_error + disk_file"

definition lossless_saver :: saver where
  "lossless_saver path img = Inr (Encoded img)"

text \<open>The whole of \<^verbatim>\<open>stitch\<close>.\<close>

definition stitch ::
  "saver \<Rightarrow> fs \<Rightarrow> layout \<Rightarrow> int \<Rightarrow> int \<Rightarrow> int \<Rightarrow> int \<Rightarrow> py_str \<Rightarrow> fill_color \<Rightarrow> int option
     \<Rightarrow> py_error + fs \<times> message list" where
  "stitch save_as fs mapping min_x min_y max_x max_y out_path fill_color tile_size =
     (case stitch_canvas fs mapping min_x min_y max_x max_y fill_color tile_size of
        Inl e \<Rightarrow> Inl e
      | Inr (stitched, out) \<Rightarrow>
          (let stitched' =
                 (if ends_with (map lower_char out_path) (str_of ''.bmp'') \<and> im_mode stitched \<noteq> RGB
                  then convert RGB stitched else stitched)
           in case save_as out_path stitched' of
                Inl e \<Rightarrow> Inl e
              | Inr saved \<Rightarrow> Inr (fs (out_path := saved), out @ [Saved_stitched out_path])))"

section \<open>The fallback layout and the primary strategy in the words of the specification\<close>

text \<open>The row-major assignment of a file list to a grid with \<open>cols\<close> columns: the file
  at index \<open>i\<close> goes to column \<open>i mod cols\<close> of row \<open>i div cols\<close>.\<close>

definition row_major_layout :: "py_str list \<Rightarrow> nat \<Rightarrow> layout" where
  "row_major_layout files cols =
     map (\<lambda>i. ((int (i mod cols), int (i div cols)), files ! i)) [0..<length files]"

text \<open>Four file names without digits, three more, and two.\<close>

definition four_names :: "py_str list" where
  "four_names = map str_of [''a.png'', ''b.png'', ''c.png'', ''d.png'']"

definition three_names :: "py_str list" where
  "three_names = map str_of [''x.png'', ''y.png'', ''z.png'']"

definition two_names :: "py_str list" where
  "two_names = map str_of [''a.png'', ''b.png'']"

definition six_names :: "py_str list" where
  "six_names = map str_of [''a.png'', ''b.png'', ''c.png'', ''d.png'', ''e.png'', ''f.png'']"

text \<open>The runs of digits of a string: every maximal block of consecutive digits, from
  left to right.\<close>

function digit_runs :: "unicode_db \<Rightarrow> py_str \<Rightarrow> py_str list" where
  "digit_runs db [] = []"
| "digit_runs db (c # cs) =
     (if is_digit db c
      then (c # takeWhile (is_digit db) cs) # digit_runs db (dropWhile (is_digit db) cs)
      else digit_runs db cs)"
  by pat_completeness auto
termination
  by (relation "measure (\<lambda>(db, s). length s)") (auto simp: length_dropWhile_le less_Suc_eq_le)

text \<open>The coordinates as the specification words them: the last two digit runs of the
  base name, read as numbers, are \<open>(row, col)\<close>; fewer than two runs give nothing.\<close>

definition coords_by_digit_runs :: "unicode_db \<Rightarrow> py_str \<Rightarrow> (int \<times> int) option" where
  "coords_by_digit_runs db name =
     (let runs = digit_runs db (splitext_root (basename name))
      in if length runs \<ge> 2
         then Some (int (digits_val db (runs ! (length runs - 2))),
                    int (digits_val db (runs ! (length runs - 1))))
         else None)"

text \<open>The digit runs with the reading the code gives them: a run counts as negative
  when a hyphen (\<open>45\<close>) stands immediately before it. The flag of the scan records
  whether the previous character was a hyphen.\<close>

function signed_runs :: "unicode_db \<Rightarrow> bool \<Rightarrow> py_str \<Rightarrow> (bool \<times> py_str) list" where
  "signed_runs db after_hyphen [] = []"
| "signed_runs db after_hyphen (c # cs) =
     (if is_digit db c
      then (after_hyphen, c # takeWhile (is_digit db) cs)
             # signed_runs db False (dropWhile (is_digit db) cs)
      else signed_runs db (c = 45) cs)"
  by pat_completeness auto
termination
  by (relation "measure (\<lambda>(db, b, s). length s)") (auto simp: length_dropWhile_le less_Suc_eq_le)

fun signed_value :: "unicode_db \<Rightarrow> bool \<times> py_str \<Rightarrow> int" where
  "signed_value db (negative, run) =
     (if negative then - int (digits_val db run) else int (digits_val db run))"

definition coords_by_signed_runs :: "unicode_db \<Rightarrow> py_str \<Rightarrow> (int \<times> int) option" where
  "coords_by_signed_runs db name =
     (let vals = map (signed_value db) (signed_runs db False (splitext_root (basename name)))
      in if length vals \<ge> 2
         then Some (vals ! (length vals - 2), vals ! (length vals - 1))
         else None)"

text \<open>The key under which \<^verbatim>\<open>arrange_by_coords\<close> files a name: \<open>(x, y) = (col, row)\<close>.\<close>

definition coord_key :: "unicode_db \<Rightarrow> py_str \<Rightarrow> int \<times> int" where
  "coord_key db f =
     (case parse_coords_from_name db f of Some (row, col) \<Rightarrow> (col, row) | None \<Rightarrow> (0, 0))"

text \<open>A database with the ASCII digits and the Arabic-Indic digits (code points 1632 to
  1641), for the examples.\<close>

definition two_scripts :: unicode_db where
  "two_scripts c =
     (if 48 \<le> c \<and> c \<le> 57 then Some (c - 48)
      else if 1632 \<le> c \<and> c \<le> 1641 then Some (c - 1632)
      else None)"

text \<open>The four brushed tiles of a 2 x 2 grid, a name with hyphens, and a name whose
  digits are Arabic-Indic.\<close>

definition brushed_names :: "py_str list" where
  "brushed_names = map str_of [''tile_0_0_brushed.png'', ''tile_0_1_brushed.png'',
                    ''tile_1_0_brushed.png'', ''tile_1_1_brushed.png'']"

definition hyphen_name :: py_str where
  "hyphen_name = str_of ''tile-3-5_brushed.png''"

definition arabic_name :: py_str where
  "arabic_name = str_of ''tile_'' @ [1635] @ str_of ''_'' @ [1637] @ str_of ''_brushed.png''"

section \<open>What the stitcher is expected to compute\<close>

text \<open>The pixel offset of the tile at grid position \<open>(x, y) = (col, row)\<close>.\<close>

fun tile_offset :: "int \<Rightarrow> int \<Rightarrow> int \<Rightarrow> int \<Rightarrow> int \<times> int \<Rightarrow> int \<times> int" where
  "tile_offset min_x min_y tile_w tile_h (x, y) = ((x - min_x) * tile_w, (y - min_y) * tile_h)"

text \<open>The entries of a layout whose file holds an image that decodes, with the image, in
  the order of the layout; and the paths of the others.\<close>

fun decoded_tiles :: "fs \<Rightarrow> layout \<Rightarrow> ((int \<times> int) \<times> image) list" where
  "decoded_tiles fs [] = []"
| "decoded_tiles fs ((key, path) # rest) =
     (case fs path of
        Encoded tile \<Rightarrow> (key, tile) # decoded_tiles fs rest
      | Truncated w h \<Rightarrow> decoded_tiles fs rest
      | Unreadable \<Rightarrow> decoded_tiles fs rest
      | Absent \<Rightarrow> decoded_tiles fs rest)"

fun failed_paths :: "fs \<Rightarrow> layout \<Rightarrow> py_str list" where
  "failed_paths fs [] = []"
| "failed_paths fs ((key, path) # rest) =
     (case fs path of
        Encoded tile \<Rightarrow> failed_paths fs rest
      | Truncated w h \<Rightarrow> path # failed_paths fs rest
      | Unreadable \<Rightarrow> path # failed_paths fs rest
      | Absent \<Rightarrow> path # failed_paths fs rest)"

text \<open>The tile that shows at pixel \<open>(px, py)\<close> of the canvas: the last of the decoded
  tiles whose area, placed at its offset, contains the pixel.\<close>

definition tile_showing ::
  "int \<Rightarrow> int \<Rightarrow> int \<Rightarrow> int \<Rightarrow> ((int \<times> int) \<times> image) list \<Rightarrow> nat \<Rightarrow> nat
     \<Rightarrow> ((int \<times> int) \<times> image) option" where
  "tile_showing min_x min_y tile_w tile_h tiles px py =
     find (\<lambda>(key, tile). covers tile (tile_offset min_x min_y tile_w tile_h key) px py) (rev tiles)"

text \<open>The colour of a freshly allocated canvas.\<close>

fun fill_rgba :: "fill_color \<Rightarrow> rgba" where
  "fill_rgba (Fill3 c) = rgb_to_rgba c"
| "fill_rgba (Fill4 c) = c"

text \<open>Two 4 x 4 opaque red tiles side by side, and a layout whose first tile cannot be
  opened.\<close>

definition red_tile :: image where
  "red_tile = RGBA_image 4 4 (\<lambda>x y. (255, 0, 0, 255))"

definition red_dir :: fs where
  "red_dir = no_files (str_of ''t_0_0.png'' := Encoded red_tile, str_of ''t_0_1.png'' := Encoded red_tile)"

definition red_layout :: layout where
  "red_layout = [((0, 0), str_of ''t_0_0.png''), ((1, 0), str_of ''t_0_1.png'')]"

definition bad_first_dir :: fs where
  "bad_first_dir = no_files (str_of ''t_0_1.png'' := Encoded red_tile)"

section \<open>Properties of the tiler\<close>

lemma ceil_div_ceiling:
  "b \<noteq> 0 \<Longrightarrow> ceil_div a b = \<lceil>real_of_int a / real_of_int b\<rceil>"
  by (simp add: ceil_div_def ceiling_divide_eq_div)

lemma nat_ceil_div_cases:
  "0 < c \<Longrightarrow> (w + c - 1) div c = (if w mod c = 0 then w div c else w div c + 1)" for w c :: nat
proof -
  assume c: "0 < c"
  define q r where "q = w div c" and "r = w mod c"
  have w: "w = q * c + r" and r: "r < c" using c by (simp_all add: q_def r_def)
  have step: "(k * c + s) div c = k" if "s < c" for k s
    using that c by (simp only: div_mult_self3 [OF less_imp_neq [OF c, symmetric]] div_less add_0_right)
  show ?thesis
  proof (cases "r = 0")
    case True
    then have "w + c - 1 = q * c + (c - 1)" using c w by simp
    moreover have "c - 1 < c" using c by simp
    ultimately have "(w + c - 1) div c = q" by (simp only: step)
    then show ?thesis using True by (simp add: q_def r_def)
  next
    case False
    then have "w + c - 1 = (q + 1) * c + (r - 1)" using c w by simp
    moreover have "r - 1 < c" using r by simp
    ultimately have "(w + c - 1) div c = q + 1" by (simp only: step)
    then show ?thesis using False by (simp add: q_def r_def)
  qed
qed

lemma ceil_div_nat:
  "0 < c \<Longrightarrow> nat (ceil_div (int w) (int c)) = (w + c - 1) div c"
proof -
  assume c: "0 < c"
  have m: "(int w mod int c = 0) = (w mod c = 0)"
    by (metis of_nat_mod of_nat_eq_0_iff)
  have d: "int w div int c = int (w div c)" by (simp add: zdiv_int)
  have "ceil_div (int w) (int c) = int (if w mod c = 0 then w div c else w div c + 1)"
    unfolding ceil_div_def using c by (simp only: zdiv_zminus1_eq_if m d) simp
  then show ?thesis using c by (simp only: nat_int nat_ceil_div_cases)
qed

lemma grid_positions_length: "length (grid_positions rows cols) = rows * cols"
  unfolding grid_positions_def
  by (induction rows) (auto simp: )

lemma grid_positions_Suc:
  "grid_positions (Suc rows) cols = grid_positions rows cols @ map (\<lambda>col. (rows, col)) [0..<cols]"
  by (simp add: grid_positions_def)

lemma grid_positions_nth:
  "row < rows \<Longrightarrow> col < cols \<Longrightarrow> grid_positions rows cols ! (row * cols + col) = (row, col)"
proof (induction rows)
  case 0
  then show ?case by simp
next
  case (Suc rows)
  show ?case
  proof (cases "row < rows")
    case True
    then have "row * cols + col < rows * cols" using Suc.prems(2)
      by (metis Suc_leI add.commute mult_Suc mult_le_mono1 nat_add_left_cancel_less order_less_le_trans)
    then show ?thesis using Suc True by (simp add: grid_positions_Suc nth_append grid_positions_length)
  next
    case False
    then have "row = rows" using Suc.prems by simp
    then show ?thesis using Suc.prems by (simp add: grid_positions_Suc nth_append grid_positions_length)
  qed
qed

lemma im_width_crop [simp]: "im_width (crop img (l, t, r, b)) = r - l"
  by (cases img) auto
lemma im_height_crop [simp]: "im_height (crop img (l, t, r, b)) = b - t"
  by (cases img) auto
lemma im_mode_crop [simp]: "im_mode (crop img box) = im_mode img"
  by (cases img; cases box) auto
lemma pixel_rgba_crop:
  "l + x < im_width img \<Longrightarrow> t + y < im_height img \<Longrightarrow>
   pixel_rgba (crop img (l, t, r, b)) x y = pixel_rgba img (l + x) (t + y)"
  by (cases img) auto

lemma im_width_paste [simp]: "im_width (paste dst src off) = im_width dst"
  by (cases dst) auto
lemma im_height_paste [simp]: "im_height (paste dst src off) = im_height dst"
  by (cases dst) auto
lemma im_mode_paste [simp]: "im_mode (paste dst src off) = im_mode dst"
  by (cases dst) auto
lemma pixel_rgba_paste_RGBA:
  "im_mode dst = RGBA \<Longrightarrow> pixel_rgba (paste dst src off) x y =
     (if covers src off x y then pixel_rgba src (nat (int x - fst off)) (nat (int y - snd off))
      else pixel_rgba dst x y)"
  by (cases dst) auto

lemma im_width_new [simp]: "im_width (Image_new c w h) = w"
  by (cases c) auto
lemma im_height_new [simp]: "im_height (Image_new c w h) = h"
  by (cases c) auto
lemma im_mode_new [simp]: "im_mode (Image_new c w h) = fill_mode c"
  by (cases c) auto
lemma pixel_rgba_new_Fill4 [simp]: "pixel_rgba (Image_new (Fill4 c) w h) x y = c"
  by simp

lemma im_width_convert [simp]: "im_width (convert m img) = im_width img"
  by (cases img; cases m) auto
lemma im_height_convert [simp]: "im_height (convert m img) = im_height img"
  by (cases img; cases m) auto
lemma im_mode_convert [simp]: "im_mode (convert m img) = m"
  by (cases img; cases m) auto
lemma pixel_rgba_convert_RGBA [simp]: "pixel_rgba (convert RGBA img) x y = pixel_rgba img x y"
  by (cases img) auto

lemma slice_loop_writes:
  "slice_loop (Encoded img) c out ps (fs, n) =
     Inr (write_files fs (map (\<lambda>(row, col). (path_join out (tile_name row col), make_chunk img c row col)) ps),
          n + length ps)"
  by (induction ps arbitrary: fs n) (auto simp: write_files_def)





lemma ceil_div_real:
  "0 < c \<Longrightarrow> nat (ceil_div (int w) (int c)) = nat \<lceil>real w / real c\<rceil>"
  by (simp add: ceil_div_ceiling)

lemma less_ceil_div_iff:
  "0 < c \<Longrightarrow> row < nat (ceil_div (int h) (int c)) \<longleftrightarrow> row * c < h"
proof -
  assume c: "0 < c"
  have "row < (h + c - 1) div c \<longleftrightarrow> Suc row \<le> (h + c - 1) div c" by auto
  also have "\<dots> \<longleftrightarrow> Suc row * c \<le> h + c - 1" using c by (simp only: less_eq_div_iff_mult_less_eq)
  also have "\<dots> \<longleftrightarrow> row * c < h" using c by auto
  finally show ?thesis using c by (simp only: ceil_div_nat)
qed

lemma pixel_rgba_paste_new:
  "pixel_rgba (paste (Image_new (Fill4 c) w h) src (0, 0)) x y =
     (if x < im_width src \<and> y < im_height src then pixel_rgba src x y else c)"
  by (simp add: covers_def)

lemma make_chunk_full:
  assumes "col * c + c \<le> im_width img" "row * c + c \<le> im_height img"
  shows "make_chunk img c row col = crop img (col * c, row * c, col * c + c, row * c + c)"
  using assms by (simp add: make_chunk_def chunk_box_def Let_def min_def)

lemma make_chunk_edge:
  assumes "0 < c" "\<not> (col * c + c \<le> im_width img \<and> row * c + c \<le> im_height img)"
  shows "make_chunk img c row col =
     paste (Image_new (Fill4 (0, 0, 0, 0)) c c)
       (crop img (col * c, row * c, min (col * c + c) (im_width img), min (row * c + c) (im_height img)))
       (0, 0)"
proof -
  have "min (col * c + c) (im_width img) - col * c \<noteq> c \<or> min (row * c + c) (im_height img) - row * c \<noteq> c"
    using assms by (auto simp: min_def)
  then have "(min (col * c + c) (im_width img) - col * c, min (row * c + c) (im_height img) - row * c) \<noteq> (c, c)"
    by simp
  then show ?thesis
    by (simp only: make_chunk_def chunk_box_def Let_def im_width_crop im_height_crop if_True
          not_False_eq_True)
qed

lemma make_chunk_size:
  assumes "0 < c"
  shows "im_width (make_chunk img c row col) = c \<and> im_height (make_chunk img c row col) = c"
proof (cases "col * c + c \<le> im_width img \<and> row * c + c \<le> im_height img")
  case True
  then show ?thesis by (simp add: make_chunk_full)
next
  case False
  show ?thesis
    by (simp only: make_chunk_edge [OF assms False] im_width_paste im_height_paste im_width_new im_height_new)
qed

lemma make_chunk_mode:
  assumes "0 < c"
  shows "im_mode (make_chunk img c row col) =
          (if col * c + c \<le> im_width img \<and> row * c + c \<le> im_height img then im_mode img else RGBA)"
proof (cases "col * c + c \<le> im_width img \<and> row * c + c \<le> im_height img")
  case True
  then show ?thesis by (simp add: make_chunk_full)
next
  case False
  have "im_mode (make_chunk img c row col) = RGBA"
    by (simp only: make_chunk_edge [OF assms False] im_mode_paste im_mode_new fill_mode.simps)
  then show ?thesis using False by (simp only: if_False)
qed

lemma make_chunk_pixel:
  assumes c: "0 < c" and x: "x < c" and y: "y < c"
  shows "pixel_rgba (make_chunk img c row col) x y =
          (if col * c + x < im_width img \<and> row * c + y < im_height img
           then pixel_rgba img (col * c + x) (row * c + y) else (0, 0, 0, 0))"
proof (cases "col * c + c \<le> im_width img \<and> row * c + c \<le> im_height img")
  case True
  then have "col * c + x < im_width img" "row * c + y < im_height img" using x y by auto
  then show ?thesis using True by (simp add: make_chunk_full pixel_rgba_crop)
next
  case False
  let ?r = "min (col * c + c) (im_width img)" and ?b = "min (row * c + c) (im_height img)"
  have in_x: "x < ?r - col * c \<longleftrightarrow> col * c + x < im_width img" using x by auto
  have in_y: "y < ?b - row * c \<longleftrightarrow> row * c + y < im_height img" using y by auto
  have "pixel_rgba (make_chunk img c row col) x y =
      (if x < ?r - col * c \<and> y < ?b - row * c
       then pixel_rgba (crop img (col * c, row * c, ?r, ?b)) x y else (0, 0, 0, 0))"
    by (simp only: make_chunk_edge [OF c False] pixel_rgba_paste_new im_width_crop im_height_crop)
  then show ?thesis by (simp only: in_x in_y) (simp add: pixel_rgba_crop)
qed


lemma slice_writes_length:
  "length (slice_writes img c output_dir) =
     nat (ceil_div (int (im_height img)) (int c)) * nat (ceil_div (int (im_width img)) (int c))"
  by (simp add: slice_writes_def grid_positions_length)

lemma slice_writes_nth:
  assumes "row < nat (ceil_div (int (im_height img)) (int c))"
      and "col < nat (ceil_div (int (im_width img)) (int c))"
  shows "slice_writes img c output_dir ! (row * nat (ceil_div (int (im_width img)) (int c)) + col) =
           (path_join output_dir (tile_name row col), make_chunk img c row col)"
proof -
  let ?rows = "nat (ceil_div (int (im_height img)) (int c))"
  let ?cols = "nat (ceil_div (int (im_width img)) (int c))"
  have "row * ?cols + col < ?rows * ?cols"
  proof -
    have "row * ?cols + col < row * ?cols + ?cols" using assms(2) by simp
    also have "\<dots> = Suc row * ?cols" by simp
    also have "\<dots> \<le> ?rows * ?cols" using assms(1) by (intro mult_le_mono1) simp
    finally show ?thesis .
  qed
  then show ?thesis
    using assms by (simp add: slice_writes_def grid_positions_length grid_positions_nth)
qed


subsection \<open>Strings and paths\<close>

lemma str_of_Nil [simp]: "str_of [] = []"
  by (simp add: str_of_def)

lemma str_of_Cons [simp]: "str_of (c # cs) = of_char c # str_of cs"
  by (simp add: str_of_def)

lemma dir_prefixes_iff:
  "p \<in> set (dir_prefixes name) \<longleftrightarrow> p \<noteq> [] \<and> (\<exists>q. name = p @ q \<and> (q = [] \<or> hd q = 47))"
proof
  assume "p \<in> set (dir_prefixes name)"
  then obtain k where k: "1 \<le> k" "k \<le> length name" "k = length name \<or> name ! k = 47" "p = take k name"
    by (auto simp: dir_prefixes_def)
  let ?q = "drop k name"
  have "name = p @ ?q" using k(4) by simp
  moreover have "?q = [] \<or> hd ?q = 47"
  proof (cases "k = length name")
    case True
    then show ?thesis by simp
  next
    case False
    then have "k < length name" using k(2) by simp
    then have "hd ?q = name ! k" by (rule hd_drop_conv_nth)
    then show ?thesis using k(3) False by simp
  qed
  moreover have "p \<noteq> []" using k(1,2,4) by auto
  ultimately show "p \<noteq> [] \<and> (\<exists>q. name = p @ q \<and> (q = [] \<or> hd q = 47))" by blast
next
  assume "p \<noteq> [] \<and> (\<exists>q. name = p @ q \<and> (q = [] \<or> hd q = 47))"
  then obtain q where q: "p \<noteq> []" "name = p @ q" "q = [] \<or> hd q = 47" by blast
  let ?k = "length p"
  have 1: "1 \<le> ?k" using q(1) by (cases p) auto
  have 2: "?k \<le> length name" using q(2) by simp
  have 3: "?k = length name \<or> name ! ?k = 47"
  proof (cases q)
    case Nil
    then show ?thesis using q(2) by simp
  next
    case (Cons c cs)
    then show ?thesis using q(2,3) by (simp add: nth_append)
  qed
  have 4: "p = take ?k name" using q(2) by simp
  have "?k \<in> set (filter (\<lambda>k. k = length name \<or> name ! k = 47) [1..<length name + 1])"
    using 1 2 3 by auto
  then have "take ?k name \<in> set (dir_prefixes name)"
    unfolding dir_prefixes_def by (simp only: set_map image_eqI)
  then show "p \<in> set (dir_prefixes name)" using 4 by simp
qed

lemma is_regular_file_iff: "is_regular_file f \<longleftrightarrow> f \<noteq> Absent"
  by (cases f) auto

lemma makedirs_ok_iff:
  "makedirs fs name = Inr () \<longleftrightarrow>
     name \<noteq> [] \<and> (\<forall>p q. name = p @ q \<and> p \<noteq> [] \<and> (q = [] \<or> hd q = 47) \<longrightarrow> fs p = Absent)"
proof -
  have "list_ex (\<lambda>p. is_regular_file (fs p)) (dir_prefixes name) \<longleftrightarrow>
        (\<exists>p q. name = p @ q \<and> p \<noteq> [] \<and> (q = [] \<or> hd q = 47) \<and> fs p \<noteq> Absent)"
    unfolding list_ex_iff is_regular_file_iff using dir_prefixes_iff [of _ name] by blast
  then show ?thesis unfolding makedirs_def by auto
qed



lemma str_nat_digits: "c \<in> set (str_nat n) \<Longrightarrow> 48 \<le> c \<and> c \<le> 57"
proof (induction n arbitrary: c rule: str_nat.induct)
  case (1 n)
  show ?case
  proof (cases "n < 10")
    case True
    then show ?thesis using "1.prems" by (simp add: str_nat.simps [of n] digit_char_def)
  next
    case False
    then have "c \<in> set (str_nat (n div 10)) \<or> c = digit_char (n mod 10)"
      using "1.prems" by (auto simp add: str_nat.simps [of n])
    then show ?thesis
    proof
      assume "c \<in> set (str_nat (n div 10))"
      then show ?thesis using "1.IH" False by blast
    next
      assume "c = digit_char (n mod 10)"
      moreover have "n mod 10 < 10" by simp
      ultimately show ?thesis unfolding digit_char_def by linarith
    qed
  qed
qed

lemma str_nat_nonempty: "str_nat n \<noteq> []"
  by (simp add: str_nat.simps [of n])

lemma decimal_value_snoc:
  "foldl (\<lambda>a c. 10 * a + (c - 48)) 0 (ds @ [d]) = 10 * foldl (\<lambda>a c. 10 * a + (c - 48)) 0 ds + (d - 48)"
  for d :: nat
  by simp

lemma str_nat_value: "foldl (\<lambda>a c. 10 * a + (c - 48)) 0 (str_nat n) = n"
proof (induction n rule: str_nat.induct)
  case (1 n)
  show ?case
  proof (cases "n < 10")
    case True
    then show ?thesis by (simp add: str_nat.simps [of n] digit_char_def)
  next
    case False
    have "foldl (\<lambda>a c. 10 * a + (c - 48)) 0 (str_nat n) =
          10 * foldl (\<lambda>a c. 10 * a + (c - 48)) 0 (str_nat (n div 10)) + (digit_char (n mod 10) - 48)"
      using False by (simp only: str_nat.simps [of n] if_False decimal_value_snoc)
    also have "\<dots> = 10 * (n div 10) + n mod 10"
      using "1.IH" False by (simp add: digit_char_def)
    also have "\<dots> = n" by simp
    finally show ?thesis .
  qed
qed

lemma str_nat_hd: "n \<noteq> 0 \<Longrightarrow> hd (str_nat n) \<noteq> 48"
proof (induction n rule: str_nat.induct)
  case (1 n)
  show ?case
  proof (cases "n < 10")
    case True
    then show ?thesis using "1.prems" by (simp add: str_nat.simps [of n] digit_char_def)
  next
    case False
    then have "n div 10 \<noteq> 0" by simp
    then have "hd (str_nat (n div 10)) \<noteq> 48" using "1.IH" False by blast
    then show ?thesis using False str_nat_nonempty [of "n div 10"]
      by (simp add: str_nat.simps [of n])
  qed
qed

lemma str_nat_inj: "str_nat m = str_nat n \<Longrightarrow> m = n"
  by (metis str_nat_value)

lemma takeWhile_digits_prefix:
  assumes "\<forall>c\<in>set ds. P c" and "rest = [] \<or> \<not> P (hd rest)"
  shows "takeWhile P (ds @ rest) = ds" and "dropWhile P (ds @ rest) = rest"
proof -
  have t: "takeWhile P rest = []" and d: "dropWhile P rest = rest"
    using assms(2) by (cases rest; simp)+
  show "takeWhile P (ds @ rest) = ds" using assms(1) t by (simp add: takeWhile_append2)
  show "dropWhile P (ds @ rest) = rest" using assms(1) d by (simp add: dropWhile_append2)
qed

lemma tile_name_inj:
  assumes "tile_name r c = tile_name r' c'"
  shows "r = r' \<and> c = c'"
proof -
  let ?P = "\<lambda>c::nat. 48 \<le> c \<and> c \<le> 57"
  have t: "takeWhile ?P (tile_name r c) = str_nat r"
       and d: "dropWhile ?P (tile_name r c) = str_of ''_'' @ str_nat c @ str_of ''.png''" for r c
    unfolding tile_name_def
    by (rule takeWhile_digits_prefix; auto dest: str_nat_digits)+
  have "str_nat r = str_nat r'" using t [of r c] t [of r' c'] assms by simp
  moreover have "str_of ''_'' @ str_nat c @ str_of ''.png'' = str_of ''_'' @ str_nat c' @ str_of ''.png''"
    using d [of r c] d [of r' c'] assms by simp
  then have "str_nat c = str_nat c'" by simp
  ultimately show ?thesis by (auto dest: str_nat_inj)
qed

lemma tile_name_hd: "tile_name r c \<noteq> [] \<and> hd (tile_name r c) \<noteq> 47"
proof -
  have "hd (tile_name r c) = hd (str_nat r)"
    using str_nat_nonempty [of r] by (simp add: tile_name_def)
  moreover have "hd (str_nat r) \<in> set (str_nat r)" using str_nat_nonempty [of r] by simp
  ultimately show ?thesis using str_nat_digits [of "hd (str_nat r)" r] str_nat_nonempty [of r]
    by (auto simp: tile_name_def)
qed

lemma path_join_tile:
  "output_dir \<noteq> [] \<Longrightarrow> path_join output_dir (tile_name r c) =
     (if last output_dir = 47 then output_dir else output_dir @ [47]) @ tile_name r c"
  using tile_name_hd [of r c] by (simp add: path_join_def)

lemma tile_path_inj:
  assumes "path_join output_dir (tile_name r c) = path_join output_dir (tile_name r' c')"
  shows "r = r' \<and> c = c'"
proof -
  have "path_join output_dir (tile_name r c) =
      (if output_dir = [] \<or> last output_dir = 47 then output_dir else output_dir @ [47]) @ tile_name r c"
    for r c using tile_name_hd [of r c] by (simp add: path_join_def)
  then have "tile_name r c = tile_name r' c'" using assms by simp
  then show ?thesis by (rule tile_name_inj)
qed

lemma set_grid_positions:
  "set (grid_positions rows cols) = {0..<rows} \<times> {0..<cols}"
  by (auto simp: grid_positions_def)

lemma distinct_grid_positions: "distinct (grid_positions rows cols)"
proof (induction rows)
  case 0
  then show ?case by (simp add: grid_positions_def)
next
  case (Suc rows)
  have "distinct (map (\<lambda>col. (rows, col)) [0..<cols])"
    by (simp add: distinct_map inj_on_def)
  moreover have "set (grid_positions rows cols) \<inter> set (map (\<lambda>col. (rows, col)) [0..<cols]) = {}"
    by (auto simp: set_grid_positions)
  ultimately show ?case using Suc by (simp add: grid_positions_Suc)
qed

lemma distinct_slice_paths: "distinct (map fst (slice_writes img c output_dir))"
proof -
  have "map fst (slice_writes img c output_dir) =
      map (\<lambda>(row, col). path_join output_dir (tile_name row col))
        (grid_positions (nat (ceil_div (int (im_height img)) (int c)))
                        (nat (ceil_div (int (im_width img)) (int c))))"
    by (simp add: slice_writes_def comp_def case_prod_unfold)
  moreover have "inj_on (\<lambda>(row, col). path_join output_dir (tile_name row col)) A" for A
    by (auto simp: inj_on_def dest: tile_path_inj)
  ultimately show ?thesis by (simp add: distinct_map distinct_grid_positions)
qed

lemma write_files_elsewhere:
  "p \<notin> fst ` set ws \<Longrightarrow> write_files fs ws p = fs p"
  unfolding write_files_def
  by (induction ws arbitrary: fs) (auto simp: case_prod_unfold)

lemma write_files_at:
  "distinct (map fst ws) \<Longrightarrow> (p, im) \<in> set ws \<Longrightarrow> write_files fs ws p = Encoded im"
proof (induction ws arbitrary: fs)
  case Nil
  then show ?case by simp
next
  case (Cons w ws)
  obtain p0 i0 where w: "w = (p0, i0)" by (cases w) auto
  have step: "write_files fs (w # ws) = write_files (fs (p0 := Encoded i0)) ws"
    by (simp add: write_files_def w)
  show ?case
  proof (cases "(p, im) = (p0, i0)")
    case True
    then have "p \<notin> fst ` set ws" using Cons.prems(1) w by auto
    then have "write_files (fs (p0 := Encoded i0)) ws p = (fs (p0 := Encoded i0)) p"
      by (rule write_files_elsewhere)
    then show ?thesis using True step by simp
  next
    case False
    then have "(p, im) \<in> set ws" using Cons.prems(2) w by auto
    moreover have "distinct (map fst ws)" using Cons.prems(1) by simp
    ultimately show ?thesis using Cons.IH step by simp
  qed
qed


subsection \<open>The source cannot be decoded\<close>








subsection \<open>The tiles of a source that decodes\<close>

lemma slice_image_decodable:
  assumes "0 < c" and "fs input_path = Encoded img" and "makedirs fs output_dir = Inr ()"
  shows "slice_image fs input_path output_dir (int c) =
           Inr (write_files fs (slice_writes img c output_dir),
                [Completed (length (slice_writes img c output_dir)) output_dir])"
  using assms
  by (simp add: slice_image_def slice_loop_writes slice_writes_def Let_def)

lemma slice_paths:
  "fst ` set (slice_writes img c output_dir) =
     {path_join output_dir (tile_name row col) |row col.
        row < nat (ceil_div (int (im_height img)) (int c)) \<and>
        col < nat (ceil_div (int (im_width img)) (int c))}"
  by (auto simp: slice_writes_def set_grid_positions image_iff) force+

text \<open>
  Claim C2. For a source of width \<open>W\<close> and height \<open>H\<close> that decodes, a positive chunk
  size \<open>C\<close> (all below \<open>2^53\<close>) and an output directory that can be made, \<^verbatim>\<open>slice_image\<close>
  returns normally after writing exactly \<open>\<lceil>W/C\<rceil> * \<lceil>H/C\<rceil>\<close> files, row by row, to pairwise
  different paths, and leaves every other path as it was. The file for \<open>(row, col)\<close> is
  \<^verbatim>\<open>{row}_{col}.png\<close> in the output directory, the numbers written in decimal, and it
  holds the crop from \<open>(col*C, row*C)\<close> to \<open>(min (col*C + C) W, min (row*C + C) H)\<close>, or,
  where that crop is smaller than \<open>C x C\<close>, a fully transparent \<open>C x C\<close> canvas with the
  crop pasted at \<open>(0, 0)\<close>. Either way the tile is \<open>C x C\<close> and each of its pixels is
  the source pixel at the same offset inside the crop, and transparent outside it.
\<close>

theorem slice_image_tiles:
  assumes "0 < C" and "fs input_path = Encoded img"
    and "W = im_width img" and "H = im_height img"
    and "C < 2 ^ 53" and "W < 2 ^ 53" and "H < 2 ^ 53"
    and "output_dir \<noteq> []"
    and "\<forall>p q. output_dir = p @ q \<and> p \<noteq> [] \<and> (q = [] \<or> hd q = 47) \<longrightarrow> fs p = Absent"
    and "dir = (if last output_dir = 47 then output_dir else output_dir @ [47])"
    and "cols = nat \<lceil>real W / real C\<rceil>" and "rows = nat \<lceil>real H / real C\<rceil>"
  shows "\<exists>fs'.
     slice_image fs input_path output_dir (int C) = Inr (fs', [Completed (rows * cols) output_dir]) \<and>
     fs' = write_files fs (slice_writes img C output_dir) \<and>
     length (slice_writes img C output_dir) = rows * cols \<and>
     distinct (map fst (slice_writes img C output_dir)) \<and>
     (\<forall>p. (\<forall>row<rows. \<forall>col<cols. p \<noteq> dir @ str_nat row @ [95] @ str_nat col @ [46, 112, 110, 103])
          \<longrightarrow> fs' p = fs p) \<and>
     (\<forall>n. str_nat n \<noteq> [] \<and> (\<forall>c\<in>set (str_nat n). 48 \<le> c \<and> c \<le> 57) \<and>
          (n \<noteq> 0 \<longrightarrow> hd (str_nat n) \<noteq> 48) \<and> str_nat 0 = [48] \<and>
          foldl (\<lambda>a c. 10 * a + (c - 48)) 0 (str_nat n) = n) \<and>
     (\<forall>row<rows. \<forall>col<cols.
        slice_writes img C output_dir ! (row * cols + col) =
          (dir @ str_nat row @ [95] @ str_nat col @ [46, 112, 110, 103], make_chunk img C row col) \<and>
        fs' (dir @ str_nat row @ [95] @ str_nat col @ [46, 112, 110, 103]) =
          Encoded (make_chunk img C row col) \<and>
        col * C < W \<and> row * C < H \<and>
        (if col * C + C \<le> W \<and> row * C + C \<le> H
         then make_chunk img C row col = crop img (col * C, row * C, col * C + C, row * C + C)
         else make_chunk img C row col =
                paste (Image_new (Fill4 (0, 0, 0, 0)) C C)
                  (crop img (col * C, row * C, min (col * C + C) W, min (row * C + C) H)) (0, 0)) \<and>
        im_width (make_chunk img C row col) = C \<and> im_height (make_chunk img C row col) = C \<and>
        (\<forall>x<C. \<forall>y<C. pixel_rgba (make_chunk img C row col) x y =
           (if col * C + x < W \<and> row * C + y < H
            then pixel_rgba img (col * C + x) (row * C + y) else (0, 0, 0, 0))))"
proof -
  let ?ws = "slice_writes img C output_dir"
  let ?fs' = "write_files fs ?ws"
  have cols: "cols = nat (ceil_div (int (im_width img)) (int C))"
    and rows: "rows = nat (ceil_div (int (im_height img)) (int C))"
    using assms by (simp_all add: ceil_div_real)
  have md: "makedirs fs output_dir = Inr ()"
    unfolding makedirs_ok_iff using assms(8,9) by blast
  have path: "path_join output_dir (tile_name row col) =
      dir @ str_nat row @ [95] @ str_nat col @ [46, 112, 110, 103]" for row col
    using path_join_tile [OF assms(8), of row col] by (simp add: assms(10) tile_name_def)
  have len: "length ?ws = rows * cols"
    by (simp only: slice_writes_length cols rows)
  have run: "slice_image fs input_path output_dir (int C) = Inr (?fs', [Completed (rows * cols) output_dir])"
    using slice_image_decodable [of C fs input_path img output_dir] assms(1,2) md by (simp only: len)
  have dist: "distinct (map fst ?ws)" by (rule distinct_slice_paths)
  have other: "?fs' p = fs p"
    if "\<forall>row<rows. \<forall>col<cols. p \<noteq> dir @ str_nat row @ [95] @ str_nat col @ [46, 112, 110, 103]" for p
  proof (rule write_files_elsewhere)
    show "p \<notin> fst ` set ?ws"
      unfolding slice_paths using that path by (auto simp: cols rows)
  qed
  have dec: "str_nat n \<noteq> [] \<and> (\<forall>c\<in>set (str_nat n). 48 \<le> c \<and> c \<le> 57) \<and>
          (n \<noteq> 0 \<longrightarrow> hd (str_nat n) \<noteq> 48) \<and> str_nat 0 = [48] \<and>
          foldl (\<lambda>a c. 10 * a + (c - 48)) 0 (str_nat n) = n" for n
    using str_nat_nonempty [of n] str_nat_digits [of _ n] str_nat_hd [of n] str_nat_value [of n]
    by (auto simp: str_nat.simps [of 0] digit_char_def)
  have tile: "?ws ! (row * cols + col) =
          (dir @ str_nat row @ [95] @ str_nat col @ [46, 112, 110, 103], make_chunk img C row col) \<and>
        ?fs' (dir @ str_nat row @ [95] @ str_nat col @ [46, 112, 110, 103]) =
          Encoded (make_chunk img C row col) \<and>
        col * C < W \<and> row * C < H \<and>
        (if col * C + C \<le> W \<and> row * C + C \<le> H
         then make_chunk img C row col = crop img (col * C, row * C, col * C + C, row * C + C)
         else make_chunk img C row col =
                paste (Image_new (Fill4 (0, 0, 0, 0)) C C)
                  (crop img (col * C, row * C, min (col * C + C) W, min (row * C + C) H)) (0, 0)) \<and>
        im_width (make_chunk img C row col) = C \<and> im_height (make_chunk img C row col) = C \<and>
        (\<forall>x<C. \<forall>y<C. pixel_rgba (make_chunk img C row col) x y =
           (if col * C + x < W \<and> row * C + y < H
            then pixel_rgba img (col * C + x) (row * C + y) else (0, 0, 0, 0)))"
    if r: "row < rows" and c: "col < cols" for row col
  proof (intro conjI)
    have nth: "?ws ! (row * cols + col) = (path_join output_dir (tile_name row col), make_chunk img C row col)"
      using r c slice_writes_nth [of row img C col output_dir] by (simp only: cols rows)
    then show "?ws ! (row * cols + col) =
          (dir @ str_nat row @ [95] @ str_nat col @ [46, 112, 110, 103], make_chunk img C row col)"
      by (simp only: path)
    have "row * cols + col < length ?ws"
    proof -
      have "row * cols + col < row * cols + cols" using c by simp
      also have "\<dots> = Suc row * cols" by simp
      also have "\<dots> \<le> rows * cols" using r by (intro mult_le_mono1) simp
      finally show ?thesis by (simp only: len)
    qed
    then have "?ws ! (row * cols + col) \<in> set ?ws" by (rule nth_mem)
    then have "(dir @ str_nat row @ [95] @ str_nat col @ [46, 112, 110, 103], make_chunk img C row col) \<in> set ?ws"
      using nth by (simp only: path)
    then show "?fs' (dir @ str_nat row @ [95] @ str_nat col @ [46, 112, 110, 103]) =
          Encoded (make_chunk img C row col)"
      by (rule write_files_at [OF dist])
    show "col * C < W" using c assms(1) by (simp only: cols less_ceil_div_iff assms(3))
    show "row * C < H" using r assms(1) by (simp only: rows less_ceil_div_iff assms(4))
    show "if col * C + C \<le> W \<and> row * C + C \<le> H
             then make_chunk img C row col = crop img (col * C, row * C, col * C + C, row * C + C)
             else make_chunk img C row col =
                    paste (Image_new (Fill4 (0, 0, 0, 0)) C C)
                      (crop img (col * C, row * C, min (col * C + C) W, min (row * C + C) H)) (0, 0)"
    proof (cases "col * C + C \<le> W \<and> row * C + C \<le> H")
      case True
      then have "make_chunk img C row col = crop img (col * C, row * C, col * C + C, row * C + C)"
        using make_chunk_full [of col C img row] unfolding assms(3,4) by blast
      then show ?thesis using True by (simp only: if_True simp_thms)
    next
      case False
      then have "make_chunk img C row col =
                    paste (Image_new (Fill4 (0, 0, 0, 0)) C C)
                      (crop img (col * C, row * C, min (col * C + C) W, min (row * C + C) H)) (0, 0)"
        using make_chunk_edge [OF assms(1), of col img row] unfolding assms(3,4) by blast
      then show ?thesis using False by (simp only: if_False simp_thms)
    qed
    show "im_width (make_chunk img C row col) = C" "im_height (make_chunk img C row col) = C"
      using make_chunk_size [OF assms(1)] by simp_all
    show "\<forall>x<C. \<forall>y<C. pixel_rgba (make_chunk img C row col) x y =
               (if col * C + x < W \<and> row * C + y < H
                then pixel_rgba img (col * C + x) (row * C + y) else (0, 0, 0, 0))"
      unfolding assms(3,4) using make_chunk_pixel [OF assms(1)] by blast
  qed
  show ?thesis
    by (rule exI [of _ ?fs']) (use run len dist other dec tile in blast)
qed


lemma sample_dir_makedirs:
  "\<forall>p q. str_of ''out'' = p @ q \<and> p \<noteq> [] \<and> (q = [] \<or> hd q = 47) \<longrightarrow> sample_dir p = Absent"
proof (intro allI impI)
  fix p q :: py_str
  assume a: "str_of ''out'' = p @ q \<and> p \<noteq> [] \<and> (q = [] \<or> hd q = 47)"
  then have "hd p = 111" by (cases p) auto
  then have "p \<noteq> str_of ''in.bmp''" by auto
  then show "sample_dir p = Absent" by (simp add: sample_dir_def no_files_def)
qed

theorem slice_image_tiles_witness:
  "(0::nat) < 2 \<and> sample_dir (str_of ''in.bmp'') = Encoded sample_image \<and>
   im_width sample_image = 3 \<and> im_height sample_image = 2 \<and>
   nat \<lceil>real 3 / real 2\<rceil> = 2 \<and> nat \<lceil>real 2 / real 2\<rceil> = 1 \<and>
   (\<exists>fs'. slice_image sample_dir (str_of ''in.bmp'') (str_of ''out'') 2 =
            Inr (fs', [Completed 2 (str_of ''out'')]) \<and>
          fs' (str_of ''out/0_0.png'') = Encoded (make_chunk sample_image 2 0 0) \<and>
          fs' (str_of ''out/0_1.png'') = Encoded (make_chunk sample_image 2 0 1) \<and>
          fs' (str_of ''out/1_0.png'') = Absent \<and>
          fs' (str_of ''in.bmp'') = Encoded sample_image) \<and>
   length (slice_writes sample_image 2 (str_of ''out'')) = 2 \<and>
   im_width (make_chunk sample_image 2 0 1) = 2 \<and>
   pixel_rgba (make_chunk sample_image 2 0 1) 0 1 = (2, 1, 9, 255) \<and>
   pixel_rgba (make_chunk sample_image 2 0 1) 1 1 = (0, 0, 0, 0)"
proof -
  have h1: "(0::nat) < 2" by simp
  have h2: "sample_dir (str_of ''in.bmp'') = Encoded sample_image" by (simp add: sample_dir_def)
  have h3: "3 = im_width sample_image" and h4: "2 = im_height sample_image"
    by (simp_all add: sample_image_def)
  have b: "(2::nat) < 2 ^ 53" "(3::nat) < 2 ^ 53" by simp_all
  have h8: "str_of ''out'' \<noteq> []" by simp
  have h10: "str_of ''out'' @ [47] = (if last (str_of ''out'') = 47 then str_of ''out'' else str_of ''out'' @ [47])"
    by simp
  have h11: "2 = nat \<lceil>real 3 / real 2\<rceil>" and h12: "1 = nat \<lceil>real 2 / real 2\<rceil>"
    by simp_all
  note t = slice_image_tiles [where C = 2 and fs = sample_dir and input_path = "str_of ''in.bmp''"
      and img = sample_image and W = 3 and H = 2 and cols = 2 and rows = 1
      and output_dir = "str_of ''out''" and dir = "str_of ''out'' @ [47]",
      OF h1 h2 h3 h4 b(1) b(2) b(1) h8 sample_dir_makedirs h10 h11 h12]
  have s0: "str_nat 0 = [48]" and s1: "str_nat 1 = [49]" "str_nat (Suc 0) = [49]"
    by (simp_all add: str_nat.simps [of 0] str_nat.simps [of "Suc 0"] digit_char_def)
  from t obtain fs' where run: "slice_image sample_dir (str_of ''in.bmp'') (str_of ''out'') 2 =
            Inr (fs', [Completed 2 (str_of ''out'')])"
    and len: "length (slice_writes sample_image 2 (str_of ''out'')) = 2"
    and other: "\<forall>p. (\<forall>row<1. \<forall>col<2. p \<noteq> (str_of ''out'' @ [47]) @ str_nat row @ [95] @ str_nat col @ [46, 112, 110, 103])
          \<longrightarrow> fs' p = sample_dir p"
    and all: "\<forall>row<1. \<forall>col<2.
        fs' ((str_of ''out'' @ [47]) @ str_nat row @ [95] @ str_nat col @ [46, 112, 110, 103]) =
          Encoded (make_chunk sample_image 2 row col) \<and>
        im_width (make_chunk sample_image 2 row col) = 2 \<and>
        (\<forall>x<2. \<forall>y<2. pixel_rgba (make_chunk sample_image 2 row col) x y =
           (if col * 2 + x < 3 \<and> row * 2 + y < 2
            then pixel_rgba sample_image (col * 2 + x) (row * 2 + y) else (0, 0, 0, 0)))"
    by (auto simp del: str_of_Cons str_of_Nil)
  have paths: "(str_of ''out'' @ [47]) @ str_nat 0 @ [95] @ str_nat 0 @ [46, 112, 110, 103] = str_of ''out/0_0.png''"
      "(str_of ''out'' @ [47]) @ str_nat 0 @ [95] @ str_nat 1 @ [46, 112, 110, 103] = str_of ''out/0_1.png''"
    by (simp_all add: s0 s1)
  have col2: "col < 2 \<longleftrightarrow> col = 0 \<or> col = 1" for col :: nat by auto
  from all have f00: "fs' (str_of ''out/0_0.png'') = Encoded (make_chunk sample_image 2 0 0)"
    and f01: "fs' (str_of ''out/0_1.png'') = Encoded (make_chunk sample_image 2 0 1)"
    and w01: "im_width (make_chunk sample_image 2 0 1) = 2"
    and p01: "\<forall>x<2. \<forall>y<2. pixel_rgba (make_chunk sample_image 2 0 1) x y =
               (if 1 * 2 + x < 3 \<and> 0 * 2 + y < 2
                then pixel_rgba sample_image (1 * 2 + x) (0 * 2 + y) else (0, 0, 0, 0))"
    unfolding paths [symmetric] by simp_all
  have "\<forall>row<1. \<forall>col<2. str_of ''out/1_0.png'' \<noteq> (str_of ''out'' @ [47]) @ str_nat row @ [95] @ str_nat col @ [46, 112, 110, 103]"
    by (simp add: col2 s0 s1)
  then have f10: "fs' (str_of ''out/1_0.png'') = Absent"
    using other by (simp add: sample_dir_def no_files_def)
  have "\<forall>row<1. \<forall>col<2. str_of ''in.bmp'' \<noteq> (str_of ''out'' @ [47]) @ str_nat row @ [95] @ str_nat col @ [46, 112, 110, 103]"
    by simp
  then have fin: "fs' (str_of ''in.bmp'') = Encoded sample_image"
    using other h2 by simp
  from p01 have a: "pixel_rgba (make_chunk sample_image 2 0 1) 0 1 = (2, 1, 9, 255)"
    by (simp add: sample_image_def)
  from p01 have b': "pixel_rgba (make_chunk sample_image 2 0 1) 1 1 = (0, 0, 0, 0)"
    by simp
  have ex: "\<exists>fs'. slice_image sample_dir (str_of ''in.bmp'') (str_of ''out'') 2 =
            Inr (fs', [Completed 2 (str_of ''out'')]) \<and>
          fs' (str_of ''out/0_0.png'') = Encoded (make_chunk sample_image 2 0 0) \<and>
          fs' (str_of ''out/0_1.png'') = Encoded (make_chunk sample_image 2 0 1) \<and>
          fs' (str_of ''out/1_0.png'') = Absent \<and>
          fs' (str_of ''in.bmp'') = Encoded sample_image"
    using run f00 f01 f10 fin by blast
  show ?thesis using h1 h2 h3 h4 h11 h12 ex len w01 a b' by (simp del: str_of_Cons str_of_Nil)
qed


section \<open>Properties of the fallback grid\<close>

lemma floor_sqrt_le: "floor_sqrt n * floor_sqrt n \<le> n"
proof (cases "floor_sqrt n = 0")
  case True
  then show ?thesis by simp
next
  case False
  let ?P = "\<lambda>k. k * k \<le> n"
  let ?xs = "[1..<Suc n]"
  let ?s = "floor_sqrt n"
  have s: "?s = length (takeWhile ?P ?xs)" by (simp only: floor_sqrt_def)
  have le: "?s \<le> length ?xs" unfolding s by (rule length_takeWhile_le)
  have "?s - 1 < length (takeWhile ?P ?xs)" using False s by simp
  then have "takeWhile ?P ?xs ! (?s - 1) \<in> set (takeWhile ?P ?xs)" by (rule nth_mem)
  moreover have "takeWhile ?P ?xs ! (?s - 1) = ?xs ! (?s - 1)"
    using False s by (intro takeWhile_nth) simp
  moreover have "?xs ! (?s - 1) = ?s" using False le by (simp add: nth_upt del: upt_Suc)
  ultimately have "?s \<in> set (takeWhile ?P ?xs)" by simp
  then show ?thesis by (auto dest: set_takeWhileD)
qed

lemma floor_sqrt_gt: "n < (floor_sqrt n + 1) * (floor_sqrt n + 1)"
proof -
  let ?P = "\<lambda>k. k * k \<le> n"
  let ?xs = "[1..<Suc n]"
  let ?s = "floor_sqrt n"
  have s: "?s = length (takeWhile ?P ?xs)" by (simp only: floor_sqrt_def)
  have le: "?s \<le> length ?xs" unfolding s by (rule length_takeWhile_le)
  show ?thesis
  proof (cases "?s < length ?xs")
    case True
    then have "\<not> ?P (?xs ! ?s)" unfolding s by (rule nth_length_takeWhile)
    moreover have "?xs ! ?s = ?s + 1" using True by (simp add: nth_upt del: upt_Suc)
    ultimately show ?thesis by simp
  next
    case False
    then have "?s = n" using le by simp
    then show ?thesis by simp
  qed
qed

lemma floor_sqrt_unique: "s * s \<le> n \<Longrightarrow> n < (s + 1) * (s + 1) \<Longrightarrow> floor_sqrt n = s"
proof -
  assume a: "s * s \<le> n" "n < (s + 1) * (s + 1)"
  have "\<not> floor_sqrt n < s"
  proof
    assume "floor_sqrt n < s"
    then have b: "floor_sqrt n + 1 \<le> s" by simp
    have "(floor_sqrt n + 1) * (floor_sqrt n + 1) \<le> s * s" by (rule mult_le_mono [OF b b])
    then show False using floor_sqrt_gt [of n] a by simp
  qed
  moreover have "\<not> s < floor_sqrt n"
  proof
    assume "s < floor_sqrt n"
    then have b: "s + 1 \<le> floor_sqrt n" by simp
    have "(s + 1) * (s + 1) \<le> floor_sqrt n * floor_sqrt n" by (rule mult_le_mono [OF b b])
    then show False using floor_sqrt_le [of n] a by simp
  qed
  ultimately show ?thesis by simp
qed

lemma floor_sqrt_real: "floor_sqrt n = nat \<lfloor>sqrt (real n)\<rfloor>"
proof -
  let ?r = "nat \<lfloor>sqrt (real n)\<rfloor>"
  have r0: "0 \<le> sqrt (real n)" by simp
  have a: "real ?r \<le> sqrt (real n)" using r0 by (simp add: of_nat_floor)
  have "real ?r * real ?r \<le> sqrt (real n) * sqrt (real n)"
    using a by (intro mult_mono) simp_all
  then have "real (?r * ?r) \<le> real n" by simp
  then have 1: "?r * ?r \<le> n" by (simp only: of_nat_le_iff)
  have b: "sqrt (real n) < real ?r + 1" using r0 by linarith
  have "sqrt (real n) * sqrt (real n) < (real ?r + 1) * (real ?r + 1)"
  proof (rule mult_strict_mono)
    show "sqrt (real n) < real ?r + 1" "sqrt (real n) < real ?r + 1" by (rule b)+
    have "0 \<le> real ?r" by (rule of_nat_0_le_iff)
    then show "0 < real ?r + 1" by linarith
    show "0 \<le> sqrt (real n)" by (rule r0)
  qed
  moreover have "sqrt (real n) * sqrt (real n) = real n" by simp
  moreover have "real ((?r + 1) * (?r + 1)) = (real ?r + 1) * (real ?r + 1)"
    by (simp only: of_nat_mult of_nat_add of_nat_1)
  ultimately have "real n < real ((?r + 1) * (?r + 1))" by (simp only:)
  then have 2: "n < (?r + 1) * (?r + 1)" by (simp only: of_nat_less_iff)
  show ?thesis using 1 2 by (rule floor_sqrt_unique)
qed

lemma search_fold_Some:
  "foldl (\<lambda>best rows. if n mod rows = 0 then Some (rows, n div rows) else best) None [1..<m] = Some (r, c)
   \<Longrightarrow> 1 \<le> r \<and> r < m \<and> n mod r = 0 \<and> c = n div r \<and> (\<forall>d. r < d \<and> d < m \<longrightarrow> n mod d \<noteq> 0)"
proof (induction m arbitrary: r c)
  case 0
  then show ?case by simp
next
  case (Suc m)
  show ?case
  proof (cases "1 \<le> m")
    case False
    then show ?thesis using Suc.prems by simp
  next
    case True
    then have split: "[1..<Suc m] = [1..<m] @ [m]" by simp
    show ?thesis
    proof (cases "n mod m = 0")
      case True
      then have "r = m \<and> c = n div m" using Suc.prems unfolding split by auto
      then show ?thesis using True \<open>1 \<le> m\<close> by auto
    next
      case False
      then have "foldl (\<lambda>best rows. if n mod rows = 0 then Some (rows, n div rows) else best) None [1..<m] = Some (r, c)"
        using Suc.prems unfolding split by simp
      from Suc.IH [OF this] show ?thesis using False
        by (auto simp: less_Suc_eq)
    qed
  qed
qed

lemma search_fold_exists:
  "2 \<le> m \<Longrightarrow> \<exists>r c. foldl (\<lambda>best rows. if n mod rows = 0 then Some (rows, n div rows) else best) None [1..<m] = Some (r, c)"
proof (induction m)
  case 0
  then show ?case by simp
next
  case (Suc m)
  then have m: "1 \<le> m" by simp
  then have split: "[1..<Suc m] = [1..<m] @ [m]" by simp
  show ?case
  proof (cases "m = 1")
    case True
    then show ?thesis by simp
  next
    case False
    then have "2 \<le> m" using m by simp
    from Suc.IH [OF this] show ?thesis unfolding split by auto
  qed
qed

lemma search_best_Some:
  obtains rows cols where "search_best n = Some (rows, cols)"
    and "1 \<le> rows" and "rows \<le> floor_sqrt n + 1" and "n mod rows = 0" and "cols = n div rows"
    and "rows * cols = n"
    and "\<And>d. rows < d \<Longrightarrow> d \<le> floor_sqrt n + 1 \<Longrightarrow> n mod d \<noteq> 0"
proof -
  obtain r c where rc: "search_best n = Some (r, c)"
    using search_fold_exists [of "floor_sqrt n + 2" n] unfolding search_best_def by auto
  from search_fold_Some [OF rc [unfolded search_best_def]]
  have p: "1 \<le> r" "r < floor_sqrt n + 2" "n mod r = 0" "c = n div r"
    "\<forall>d. r < d \<and> d < floor_sqrt n + 2 \<longrightarrow> n mod d \<noteq> 0" by auto
  have "r * c = n" using p(3,4) by auto
  then show ?thesis using that [of r c] rc p by auto
qed

lemma most_square_le:
  assumes n: "1 \<le> n"
    and rows: "1 \<le> rows" "rows \<le> floor_sqrt n + 1" "rows * cols = n"
    and last: "\<And>d. rows < d \<Longrightarrow> d \<le> floor_sqrt n + 1 \<Longrightarrow> n mod d \<noteq> 0"
    and rc: "r * c = n" "r \<le> c"
  shows "\<bar>int rows - int cols\<bar> \<le> int c - int r"
proof -
  let ?s = "floor_sqrt n"
  have r1: "1 \<le> r" using rc n by (cases r) auto
  have c_div: "c = n div r" using rc r1 by auto
  have cols_div: "cols = n div rows" using rows by auto
  have "r * r \<le> n" using rc by (metis mult_le_mono2)
  have r_le_s: "r \<le> ?s"
  proof (rule ccontr)
    assume "\<not> r \<le> ?s"
    then have b: "?s + 1 \<le> r" by simp
    have "(?s + 1) * (?s + 1) \<le> r * r" by (rule mult_le_mono [OF b b])
    then show False using floor_sqrt_gt [of n] \<open>r * r \<le> n\<close> by simp
  qed
  have r_dvd: "n mod r = 0" using rc by auto
  show ?thesis
  proof (cases "rows \<le> cols")
    case True
    have "r \<le> rows"
    proof (rule ccontr)
      assume "\<not> r \<le> rows"
      then have "rows < r" by simp
      then have "n mod r \<noteq> 0" using r_le_s by (intro last) simp_all
      then show False using r_dvd by simp
    qed
    then have "cols \<le> c" unfolding c_div cols_div using r1 by (intro div_le_mono2) simp_all
    then show ?thesis using True \<open>r \<le> rows\<close> by simp
  next
    case False
    then have lt: "cols < rows" by simp
    have "n < rows * rows"
    proof -
      have "rows * cols < rows * rows" using lt rows(1) by simp
      then show ?thesis using rows(3) by simp
    qed
    have "rows = ?s + 1"
    proof (rule ccontr)
      assume "rows \<noteq> ?s + 1"
      then have b: "rows \<le> ?s" using rows(2) by simp
      have "rows * rows \<le> ?s * ?s" by (rule mult_le_mono [OF b b])
      then show False using floor_sqrt_le [of n] \<open>n < rows * rows\<close> by simp
    qed
    have s1: "1 \<le> ?s"
    proof (rule ccontr)
      assume "\<not> 1 \<le> ?s"
      then have "?s = 0" by simp
      then show False using floor_sqrt_gt [of n] n by simp
    qed
    have "rows \<le> c"
    proof (rule ccontr)
      assume "\<not> rows \<le> c"
      then have cs: "c \<le> ?s" using \<open>rows = ?s + 1\<close> by simp
      have "n \<le> c * c" using rc by (metis mult_le_mono1)
      moreover have "c * c \<le> ?s * ?s" by (rule mult_le_mono [OF cs cs])
      ultimately have nss: "n = ?s * ?s" using floor_sqrt_le [of n] by simp
      have "cols \<le> ?s - 1"
      proof (rule ccontr)
        assume "\<not> cols \<le> ?s - 1"
        then have "?s \<le> cols" by simp
        then have "(?s + 1) * ?s \<le> (?s + 1) * cols" by (rule mult_le_mono2)
        then have "?s * ?s + ?s \<le> n" using rows(3) \<open>rows = ?s + 1\<close> by (simp add: algebra_simps)
        then show False using nss s1 by simp
      qed
      then have "(?s + 1) * cols \<le> (?s + 1) * (?s - 1)" by (rule mult_le_mono2)
      moreover have "(?s + 1) * (?s - 1) + 1 = ?s * ?s" using s1
        by (cases ?s) (simp_all add: algebra_simps)
      ultimately have "n < ?s * ?s" using rows(3) \<open>rows = ?s + 1\<close> by simp
      then show False using nss by simp
    qed
    then have "n div c \<le> n div rows" using rows(1) by (intro div_le_mono2) simp_all
    moreover have "r = n div c"
    proof -
      have "0 < c" using rc n by (cases c) auto
      then have "(r * c) div c = r" by simp
      then show ?thesis using rc by simp
    qed
    ultimately have "r \<le> cols" using cols_div by simp
    then show ?thesis using lt \<open>rows \<le> c\<close> by simp
  qed
qed

lemma most_square:
  assumes n: "1 \<le> n"
    and rows: "1 \<le> rows" "rows \<le> floor_sqrt n + 1" "rows * cols = n"
    and last: "\<And>d. rows < d \<Longrightarrow> d \<le> floor_sqrt n + 1 \<Longrightarrow> n mod d \<noteq> 0"
    and rc: "r * c = n"
  shows "\<bar>int rows - int cols\<bar> \<le> \<bar>int r - int c\<bar>"
proof (cases "r \<le> c")
  case True
  from most_square_le [OF n rows last rc True] show ?thesis using True by simp
next
  case False
  then have "c \<le> r" by simp
  moreover have "c * r = n" using rc by (simp add: mult.commute)
  ultimately have "\<bar>int rows - int cols\<bar> \<le> int r - int c"
    using most_square_le [OF n rows last] by blast
  then show ?thesis by simp
qed

lemma update_fresh: "k \<notin> fst ` set al \<Longrightarrow> AList.update k v al = al @ [(k, v)]"
  by (induction al) auto

lemma fill_row_row_major:
  assumes "c0 \<le> cols" and "r * cols + cols \<le> length files"
  shows "fill_row files r [c0..<cols]
           (map (\<lambda>i. ((int (i mod cols), int (i div cols)), files ! i)) [0..<r * cols + c0], r * cols + c0) =
         (map (\<lambda>i. ((int (i mod cols), int (i div cols)), files ! i)) [0..<r * cols + cols], r * cols + cols)"
  using assms
proof (induction "cols - c0" arbitrary: c0)
  case 0
  then show ?case by simp
next
  case (Suc k)
  let ?f = "\<lambda>i. ((int (i mod cols), int (i div cols)), files ! i)"
  let ?idx = "r * cols + c0"
  have c0: "c0 < cols" using Suc.hyps(2) by simp
  then have upt: "[c0..<cols] = c0 # [Suc c0..<cols]" by (simp add: upt_conv_Cons)
  have idx: "?idx < length files" using c0 Suc.prems(2) by simp
  have key: "?f ?idx = ((int c0, int r), files ! ?idx)" using c0 by simp
  have fresh: "(int c0, int r) \<notin> fst ` set (map ?f [0..<?idx])"
  proof
    assume "(int c0, int r) \<in> fst ` set (map ?f [0..<?idx])"
    then obtain i where i: "i < ?idx" "i mod cols = c0" "i div cols = r" by auto
    have "i = (i div cols) * cols + i mod cols" by simp
    then have "i = ?idx" using i(2,3) by simp
    then show False using i(1) by simp
  qed
  have "AList.update (int c0, int r) (files ! ?idx) (map ?f [0..<?idx]) = map ?f [0..<Suc ?idx]"
    using update_fresh [OF fresh] key by simp
  moreover have "k = cols - Suc c0" using Suc.hyps(2) by simp
  ultimately show ?case
    using Suc.hyps(1) [of "Suc c0"] c0 idx Suc.prems(2) unfolding upt by simp
qed

lemma fill_rows_row_major:
  assumes "rows * cols = length files"
  shows "fill_rows files rows cols = (row_major_layout files cols, length files)"
proof -
  let ?f = "\<lambda>i. ((int (i mod cols), int (i div cols)), files ! i)"
  have "k \<le> rows \<Longrightarrow> foldl (\<lambda>st r. fill_row files r [0..<cols] st) ([], 0) [0..<k] =
          (map ?f [0..<k * cols], k * cols)" for k
  proof (induction k)
    case 0
    then show ?case by simp
  next
    case (Suc k)
    then have "k * cols + cols \<le> rows * cols"
      by (metis Suc_le_eq add.commute mult_Suc mult_le_mono1 Suc_leI)
    then have le: "k * cols + cols \<le> length files" using assms by simp
    have "fill_row files k [0..<cols] (map ?f [0..<k * cols + 0], k * cols + 0) =
          (map ?f [0..<k * cols + cols], k * cols + cols)"
      by (rule fill_row_row_major [OF _ le]) simp
    then show ?case using Suc by (simp add: add.commute)
  qed
  from this [of rows] show ?thesis using assms by (simp add: fill_rows_def row_major_layout_def)
qed

lemma fallback_grid_row_major:
  obtains rows cols where "search_best (length files) = Some (rows, cols)"
    and "fallback_grid files = Inr (row_major_layout files cols, 0, 0, int cols - 1, int rows - 1)"
    and "1 \<le> rows" and "rows \<le> floor_sqrt (length files) + 1" and "rows * cols = length files"
    and "\<And>d. rows < d \<Longrightarrow> d \<le> floor_sqrt (length files) + 1 \<Longrightarrow> length files mod d \<noteq> 0"
proof -
  obtain rows cols where s: "search_best (length files) = Some (rows, cols)"
    and p: "1 \<le> rows" "rows \<le> floor_sqrt (length files) + 1" "rows * cols = length files"
      "\<And>d. rows < d \<Longrightarrow> d \<le> floor_sqrt (length files) + 1 \<Longrightarrow> length files mod d \<noteq> 0"
    by (rule search_best_Some [of "length files"]) blast
  have "fallback_grid files = Inr (row_major_layout files cols, 0, 0, int cols - 1, int rows - 1)"
    by (simp add: fallback_grid_def s fill_rows_row_major [OF p(3)] Let_def)
  then show ?thesis using that s p by blast
qed

lemma row_major_layout_props:
  assumes "rows * cols = length files"
  shows "length (row_major_layout files cols) = length files"
    and "map snd (row_major_layout files cols) = files"
    and "distinct (map fst (row_major_layout files cols))"
    and "set (map fst (row_major_layout files cols)) = {(int c, int r) |c r. c < cols \<and> r < rows}"
proof -
  let ?n = "length files"
  show "length (row_major_layout files cols) = ?n" by (simp add: row_major_layout_def)
  show "map snd (row_major_layout files cols) = files"
    by (simp add: row_major_layout_def comp_def map_nth)
  have "inj_on (\<lambda>i. (int (i mod cols), int (i div cols))) {0..<?n}"
  proof (rule inj_onI)
    fix i j assume "(int (i mod cols), int (i div cols)) = (int (j mod cols), int (j div cols))"
    then have "i mod cols = j mod cols" "i div cols = j div cols" by simp_all
    then show "i = j" by (metis div_mult_mod_eq)
  qed
  then show "distinct (map fst (row_major_layout files cols))"
    by (simp add: row_major_layout_def comp_def distinct_map)
  show "set (map fst (row_major_layout files cols)) = {(int c, int r) |c r. c < cols \<and> r < rows}"
  proof (intro set_eqI iffI)
    fix k assume "k \<in> set (map fst (row_major_layout files cols))"
    then obtain i where i: "i < ?n" "k = (int (i mod cols), int (i div cols))"
      by (auto simp: row_major_layout_def)
    have c: "0 < cols" using i(1) assms by (cases cols) auto
    have "i div cols < rows" using i(1) assms c by (simp add: div_less_iff_less_mult mult.commute)
    then show "k \<in> {(int c, int r) |c r. c < cols \<and> r < rows}" using i(2) c by auto
  next
    fix k assume "k \<in> {(int c, int r) |c r. c < cols \<and> r < rows}"
    then obtain c r where k: "k = (int c, int r)" "c < cols" "r < rows" by auto
    have "r * cols + c < rows * cols"
    proof -
      have "r * cols + c < r * cols + cols" using k(2) by simp
      also have "\<dots> = Suc r * cols" by simp
      also have "\<dots> \<le> rows * cols" using k(3) by (intro mult_le_mono1) simp
      finally show ?thesis .
    qed
    moreover have "(r * cols + c) mod cols = c" "(r * cols + c) div cols = r" using k(2) by simp_all
    ultimately have "k \<in> (\<lambda>i. (int (i mod cols), int (i div cols))) ` {0..<?n}"
      using k(1) assms by (intro image_eqI [where x = "r * cols + c"]) simp_all
    then show "k \<in> set (map fst (row_major_layout files cols))"
      by (simp add: row_major_layout_def comp_def)
  qed
qed


text \<open>
  Claim C10. For a non-empty file list the divisor search always ends with a pair (row
  count 1 divides every \<open>n\<close>), so the ceiling-square default is never taken; the grid
  returned has \<open>rows * cols = n\<close>, extents \<open>(0, 0, cols - 1, rows - 1)\<close>, and its mapping
  gives the \<open>n\<close> files, in order, pairwise distinct positions that are exactly the
  positions of the grid.
\<close>

theorem fallback_grid_complete:
  assumes "files \<noteq> []"
  shows "search_best (length files) \<noteq> None \<and>
    (\<exists>rows cols mapping.
        search_best (length files) = Some (rows, cols) \<and>
        fallback_grid files = Inr (mapping, 0, 0, int cols - 1, int rows - 1) \<and>
        rows * cols = length files \<and> 1 \<le> rows \<and> 1 \<le> cols \<and>
        length mapping = length files \<and> map snd mapping = files \<and>
        distinct (map fst mapping) \<and>
        set (map fst mapping) = {(int c, int r) |c r. c < cols \<and> r < rows})"
proof -
  obtain rows cols where s: "search_best (length files) = Some (rows, cols)"
    and f: "fallback_grid files = Inr (row_major_layout files cols, 0, 0, int cols - 1, int rows - 1)"
    and p: "1 \<le> rows" "rows * cols = length files"
    by (rule fallback_grid_row_major [of files]) blast
  have "1 \<le> cols" using p(2) assms by (cases cols) auto
  then show ?thesis
    using s f p row_major_layout_props [OF p(2)] by (intro conjI exI [of _ rows] exI [of _ cols]
      exI [of _ "row_major_layout files cols"]) simp_all
qed

theorem fallback_grid_complete_witness:
  "three_names \<noteq> [] \<and> search_best (length three_names) \<noteq> None \<and>
    (\<exists>rows cols mapping.
        search_best (length three_names) = Some (rows, cols) \<and>
        fallback_grid three_names = Inr (mapping, 0, 0, int cols - 1, int rows - 1) \<and>
        rows * cols = length three_names \<and> 1 \<le> rows \<and> 1 \<le> cols \<and>
        length mapping = length three_names \<and> map snd mapping = three_names \<and>
        distinct (map fst mapping) \<and>
        set (map fst mapping) = {(int c, int r) |c r. c < cols \<and> r < rows})"
proof -
  have h: "three_names \<noteq> []" by (simp add: three_names_def)
  show ?thesis using h fallback_grid_complete [OF h] by simp
qed


text \<open>
  Claim C7 fails on the code. Among the exact factorisations of the file count that are
  most square, the claim prefers the one with the fewest rows, and the comment of the
  source asks for \<open>cols \<ge> rows\<close>. The search runs one row count too far,
  \<^verbatim>\<open>range(1, int(math.sqrt(n)) + 2)\<close>, and keeps the last divisor: two files are laid
  out as two rows of one column (extents \<open>(0, 0, 0, 1)\<close>) although one row of two
  columns has fewer rows, and six files as three rows of two columns although two rows
  of three columns are as square; twelve files get four rows of three columns.
\<close>

theorem fallback_grid_rows_exceed_cols:
  "fallback_grid two_names = Inr ([((0, 0), str_of ''a.png''), ((0, 1), str_of ''b.png'')], 0, 0, 0, 1) \<and>
   1 * 2 = length two_names \<and> 2 * 1 = length two_names \<and>
   fallback_grid six_names =
     Inr ([((0, 0), str_of ''a.png''), ((1, 0), str_of ''b.png''), ((0, 1), str_of ''c.png''),
           ((1, 1), str_of ''d.png''), ((0, 2), str_of ''e.png''), ((1, 2), str_of ''f.png'')], 0, 0, 1, 2) \<and>
   2 * 3 = length six_names \<and> 3 * 2 = length six_names \<and>
   floor_sqrt 2 = 1 \<and> search_best 2 = Some (2, 1) \<and>
   floor_sqrt 6 = 2 \<and> search_best 6 = Some (3, 2) \<and>
   floor_sqrt 12 = 3 \<and> search_best 12 = Some (4, 3)"
  by code_simp

section \<open>Properties of the tile locator\<close>

lemma minus_not_digit: "ascii_digits db \<Longrightarrow> \<not> is_digit db 45"
  by (simp add: ascii_digits_def is_digit_def)

lemma ascii_is_digit:
  "ascii_digits db \<Longrightarrow> c < 128 \<Longrightarrow> is_digit db c \<longleftrightarrow> 48 \<le> c \<and> c \<le> 57"
  by (simp add: ascii_digits_def is_digit_def)

lemma ascii_digit_val:
  "ascii_digits db \<Longrightarrow> 48 \<le> c \<Longrightarrow> c \<le> 57 \<Longrightarrow> digit_val db c = c - 48"
  by (simp add: ascii_digits_def digit_val_def)

lemma findall_ints_signed_runs:
  assumes m: "\<not> is_digit db 45"
  shows "(b \<longrightarrow> s = [] \<or> \<not> is_digit db (hd s)) \<Longrightarrow>
     findall_ints db s = map (\<lambda>(neg, run). if neg then 45 # run else run) (signed_runs db b s)"
proof (induction db s arbitrary: b rule: findall_ints.induct)
  case (1 db)
  then show ?case by simp
next
  case (2 db c cs)
  show ?case
  proof (cases "is_digit db c")
    case True
    then have "\<not> b" using 2(4) by simp
    moreover have "findall_ints db (dropWhile (is_digit db) cs) =
        map (\<lambda>(neg, run). if neg then 45 # run else run) (signed_runs db False (dropWhile (is_digit db) cs))"
      using 2(1) [OF True, of False] by simp
    ultimately show ?thesis using True by simp
  next
    case False
    show ?thesis
    proof (cases "c = 45 \<and> cs \<noteq> [] \<and> is_digit db (hd cs)")
      case True
      then obtain d ds where cs: "cs = d # ds" and d: "is_digit db d" by (cases cs) auto
      have "findall_ints db (dropWhile (is_digit db) cs) =
        map (\<lambda>(neg, run). if neg then 45 # run else run) (signed_runs db False (dropWhile (is_digit db) cs))"
        using 2(2) [OF False True, of False] by simp
      then show ?thesis using False True cs d by simp
    next
      case F2: False
      have "findall_ints db cs =
        map (\<lambda>(neg, run). if neg then 45 # run else run) (signed_runs db (c = 45) cs)"
        using 2(3) [OF False F2, of "c = 45"] F2 by auto
      then show ?thesis using False F2 by auto
    qed
  qed
qed

lemma signed_runs_digit_runs: "map snd (signed_runs db b s) = digit_runs db s"
proof (induction db b s rule: signed_runs.induct)
  case (1 db b)
  then show ?case by simp
next
  case (2 db b c cs)
  then show ?case by (cases "is_digit db c") simp_all
qed

lemma length_signed_runs: "length (signed_runs db b s) = length (digit_runs db s)"
  using signed_runs_digit_runs [of db b s] length_map [of snd "signed_runs db b s"] by simp

lemma signed_runs_no_minus:
  "45 \<notin> set s \<Longrightarrow> b = False \<Longrightarrow> signed_runs db b s = map (\<lambda>run. (False, run)) (digit_runs db s)"
proof (induction db b s rule: signed_runs.induct)
  case (1 db b)
  then show ?case by simp
next
  case (2 db b c cs)
  have "45 \<notin> set (dropWhile (is_digit db) cs)" using 2(3) by (auto dest: set_dropWhileD)
  then show ?case using 2 by (cases "is_digit db c") simp_all
qed

lemma digit_runs_digits:
  "run \<in> set (digit_runs db s) \<Longrightarrow> run \<noteq> [] \<and> (\<forall>c\<in>set run. is_digit db c)"
proof (induction db s rule: digit_runs.induct)
  case (1 db)
  then show ?case by simp
next
  case (2 db c cs)
  show ?case
  proof (cases "is_digit db c")
    case True
    then have "run = c # takeWhile (is_digit db) cs \<or> run \<in> set (digit_runs db (dropWhile (is_digit db) cs))"
      using 2(3) by simp
    then show ?thesis
    proof
      assume r: "run = c # takeWhile (is_digit db) cs"
      have "\<forall>x\<in>set (takeWhile (is_digit db) cs). is_digit db x"
        using set_takeWhileD [of _ "is_digit db" cs] by blast
      then show ?thesis using True r by simp
    next
      assume "run \<in> set (digit_runs db (dropWhile (is_digit db) cs))"
      then show ?thesis by (rule 2(1) [OF True])
    qed
  next
    case False
    then have "run \<in> set (digit_runs db cs)" using 2(3) by simp
    then show ?thesis by (rule 2(2) [OF False])
  qed
qed

lemma py_int_run:
  assumes "\<not> is_digit db 45" and "run \<noteq> []" and "\<forall>c\<in>set run. is_digit db c"
  shows "py_int db run = int (digits_val db run)" and "py_int db (45 # run) = - int (digits_val db run)"
proof -
  obtain c cs where r: "run = c # cs" using assms(2) by (cases run) auto
  then have "c \<noteq> 45" using assms(1,3) by auto
  then show "py_int db run = int (digits_val db run)" by (simp add: r)
  show "py_int db (45 # run) = - int (digits_val db run)" by simp
qed

lemma py_int_signed_value:
  assumes "\<not> is_digit db 45" and "(neg, run) \<in> set (signed_runs db b s)"
  shows "py_int db (if neg then 45 # run else run) = signed_value db (neg, run)"
proof -
  have "run \<in> set (digit_runs db s)"
    using assms(2) signed_runs_digit_runs [of db b s] by (metis image_eqI set_map snd_conv)
  then have "run \<noteq> [] \<and> (\<forall>c\<in>set run. is_digit db c)" by (rule digit_runs_digits)
  then show ?thesis using py_int_run [OF assms(1), of run] by simp
qed

lemma parse_coords_signed_runs:
  assumes "\<not> is_digit db 45"
  shows "parse_coords_from_name db name = coords_by_signed_runs db name"
proof -
  let ?base = "splitext_root (basename name)"
  let ?sr = "signed_runs db False ?base"
  let ?f = "\<lambda>(neg, run). if neg then 45 # run else run"
  have f: "findall_ints db ?base = map ?f ?sr"
    using findall_ints_signed_runs [OF assms, of False ?base] by simp
  have v: "py_int db (map ?f ?sr ! i) = map (signed_value db) ?sr ! i" if "i < length ?sr" for i
  proof -
    obtain neg run where e: "?sr ! i = (neg, run)" by (cases "?sr ! i") auto
    then have "(neg, run) \<in> set ?sr" using that by (metis nth_mem)
    from py_int_signed_value [OF assms this] show ?thesis using that e by simp
  qed
  show ?thesis
  proof (cases "2 \<le> length ?sr")
    case True
    then have "length ?sr - 2 < length ?sr" "length ?sr - 1 < length ?sr" by auto
    then show ?thesis using True v
      by (simp add: parse_coords_from_name_def coords_by_signed_runs_def f Let_def)
  next
    case False
    then show ?thesis
      by (simp add: parse_coords_from_name_def coords_by_signed_runs_def f Let_def)
  qed
qed

lemma signed_runs_coords_no_minus:
  assumes "45 \<notin> set (splitext_root (basename name))"
  shows "coords_by_signed_runs db name = coords_by_digit_runs db name"
  by (simp add: coords_by_signed_runs_def coords_by_digit_runs_def Let_def
        signed_runs_no_minus [OF assms refl] o_def)

lemma signed_runs_coords_None_iff:
  "coords_by_signed_runs db name = None \<longleftrightarrow>
     length (digit_runs db (splitext_root (basename name))) < 2"
  by (auto simp: coords_by_signed_runs_def Let_def length_signed_runs)

lemma parse_coords_None_iff:
  "\<not> is_digit db 45 \<Longrightarrow> parse_coords_from_name db name = None \<longleftrightarrow>
     length (digit_runs db (splitext_root (basename name))) < 2"
  by (simp add: parse_coords_signed_runs signed_runs_coords_None_iff)

lemma arrange_loop_None_iff:
  "arrange_loop db files st = None \<longleftrightarrow> (\<exists>f\<in>set files. parse_coords_from_name db f = None)"
proof (induction files arbitrary: st)
  case Nil
  then show ?case by simp
next
  case (Cons f files)
  obtain m xs ys where st: "st = (m, xs, ys)" by (cases st) auto
  show ?case
  proof (cases "parse_coords_from_name db f")
    case None
    then show ?thesis by (simp add: st)
  next
    case (Some rc)
    then obtain row col where "parse_coords_from_name db f = Some (row, col)" by (cases rc) auto
    then show ?thesis using Cons.IH by (simp add: st)
  qed
qed

lemma arrange_loop_Some:
  "arrange_loop db files (m, xs, ys) = Some (m', xs', ys') \<Longrightarrow>
     fst ` set m' = fst ` set m \<union> coord_key db ` set files \<and>
     xs' = xs \<union> fst ` coord_key db ` set files \<and>
     ys' = ys \<union> snd ` coord_key db ` set files \<and>
     (m' = [] \<longleftrightarrow> m = [] \<and> files = [])"
proof (induction files arbitrary: m xs ys)
  case Nil
  then show ?case by simp
next
  case (Cons f files)
  then obtain row col where p: "parse_coords_from_name db f = Some (row, col)"
    by (auto split: option.splits)
  then have k: "coord_key db f = (col, row)" by (simp add: coord_key_def)
  from Cons.prems p have
    "arrange_loop db files (AList.update (col, row) f m, insert col xs, insert row ys) = Some (m', xs', ys')"
    by simp
  from Cons.IH [OF this] show ?case using k by (auto simp: dom_update)
qed

lemma arrange_loop_distinct:
  assumes "\<forall>f\<in>set files. parse_coords_from_name db f \<noteq> None"
      and "distinct (map (coord_key db) files)"
      and "coord_key db ` set files \<inter> fst ` set m = {}"
  shows "arrange_loop db files (m, xs, ys) =
           Some (m @ map (\<lambda>f. (coord_key db f, f)) files,
                 xs \<union> fst ` coord_key db ` set files, ys \<union> snd ` coord_key db ` set files)"
  using assms
proof (induction files arbitrary: m xs ys)
  case Nil
  then show ?case by simp
next
  case (Cons f files)
  then obtain row col where p: "parse_coords_from_name db f = Some (row, col)" by auto
  then have k: "coord_key db f = (col, row)" by (simp add: coord_key_def)
  have fresh: "(col, row) \<notin> fst ` set m" using Cons.prems(3) k by auto
  have u: "AList.update (col, row) f m = m @ [((col, row), f)]" by (rule update_fresh [OF fresh])
  have "coord_key db ` set files \<inter> fst ` set (m @ [((col, row), f)]) = {}"
    using Cons.prems(2,3) k by auto
  then have "arrange_loop db files (m @ [((col, row), f)], insert col xs, insert row ys) =
      Some ((m @ [((col, row), f)]) @ map (\<lambda>f. (coord_key db f, f)) files,
            insert col xs \<union> fst ` coord_key db ` set files, insert row ys \<union> snd ` coord_key db ` set files)"
    using Cons.prems(1,2) by (intro Cons.IH) auto
  then show ?case using p k u by simp
qed

lemma arrange_by_coords_None_iff:
  "arrange_by_coords db files = None \<longleftrightarrow>
     files = [] \<or> (\<exists>f\<in>set files. parse_coords_from_name db f = None)"
proof (cases "arrange_loop db files ([], {}, {})")
  case None
  then show ?thesis using arrange_loop_None_iff [of db files "([], {}, {})"]
    by (simp add: arrange_by_coords_def)
next
  case (Some st)
  obtain m xs ys where st: "st = (m, xs, ys)" by (cases st) auto
  have "\<not> (\<exists>f\<in>set files. parse_coords_from_name db f = None)"
    using Some arrange_loop_None_iff [of db files "([], {}, {})"] by simp
  moreover have "m = [] \<longleftrightarrow> files = []" using arrange_loop_Some [OF Some [unfolded st]] by simp
  ultimately show ?thesis using Some st by (simp add: arrange_by_coords_def Let_def)
qed

lemma arrange_by_coords_Some:
  assumes "arrange_by_coords db files = Some (mapping, min_x, min_y, max_x, max_y)"
  shows "fst ` set mapping = coord_key db ` set files"
    and "min_x = Min (fst ` coord_key db ` set files)" and "max_x = Max (fst ` coord_key db ` set files)"
    and "min_y = Min (snd ` coord_key db ` set files)" and "max_y = Max (snd ` coord_key db ` set files)"
proof -
  from assms obtain xs ys where l: "arrange_loop db files ([], {}, {}) = Some (mapping, xs, ys)"
    and e: "min_x = Min xs" "max_x = Max xs" "min_y = Min ys" "max_y = Max ys"
    by (auto simp: arrange_by_coords_def Let_def split: option.splits if_splits)
  from arrange_loop_Some [OF l] e
  show "fst ` set mapping = coord_key db ` set files"
    and "min_x = Min (fst ` coord_key db ` set files)" and "max_x = Max (fst ` coord_key db ` set files)"
    and "min_y = Min (snd ` coord_key db ` set files)" and "max_y = Max (snd ` coord_key db ` set files)"
    by simp_all
qed

lemma arrange_by_coords_distinct:
  assumes "files \<noteq> []" and "\<forall>f\<in>set files. parse_coords_from_name db f \<noteq> None"
      and "distinct (map (coord_key db) files)"
  shows "arrange_by_coords db files =
           Some (map (\<lambda>f. (coord_key db f, f)) files,
                 Min (fst ` coord_key db ` set files), Min (snd ` coord_key db ` set files),
                 Max (fst ` coord_key db ` set files), Max (snd ` coord_key db ` set files))"
  using arrange_loop_distinct [OF assms(2,3), of "[]" "{}" "{}"] assms(1)
  by (simp add: arrange_by_coords_def Let_def)

lemma basename_after_slash:
  assumes "47 \<notin> set n" and "pre = [] \<or> last pre = 47"
  shows "basename (pre @ n) = n"
proof (cases "pre = []")
  case True
  have "takeWhile (\<lambda>c. c \<noteq> 47) (rev n) = rev n" using assms(1) by (subst takeWhile_eq_all_conv) auto
  then show ?thesis using True by (simp only: basename_def append_Nil rev_rev_ident)
next
  case False
  then obtain q where q: "pre = q @ [47]" using assms(2) by (metis append_butlast_last_id)
  have "takeWhile (\<lambda>c. c \<noteq> 47) (rev n @ 47 # rev q) = rev n"
    using assms(1) by (subst takeWhile_append2) auto
  then have "takeWhile (\<lambda>c. c \<noteq> 47) (rev (pre @ n)) = rev n" by (simp add: q)
  then show ?thesis by (simp only: basename_def rev_rev_ident)
qed

lemma splitext_root_stem:
  assumes "47 \<notin> set stem" and "47 \<notin> set ext" and "46 \<notin> set ext" and "\<exists>c\<in>set stem. c \<noteq> 46"
  shows "splitext_root (stem @ 46 # ext) = stem"
proof -
  have b: "basename (stem @ 46 # ext) = stem @ 46 # ext"
    using basename_after_slash [of "stem @ 46 # ext" "[]"] assms(1,2) by simp
  have "dropWhile (\<lambda>c. c \<noteq> 46) (rev ext @ 46 # rev stem) = 46 # rev stem"
    using assms(3) by (subst dropWhile_append2) auto
  then have s: "rev (tl (dropWhile (\<lambda>c. c \<noteq> 46) (rev (stem @ 46 # ext)))) = stem" by simp
  have "list_ex (\<lambda>c. c \<noteq> 46) stem" using assms(4) by (simp add: list_ex_iff)
  then show ?thesis unfolding splitext_root_def b s Let_def by simp
qed

lemma splitext_root_no_dot: "46 \<notin> set n \<Longrightarrow> 47 \<notin> set n \<Longrightarrow> splitext_root n = n"
  using basename_after_slash [of n "[]"] by (simp add: splitext_root_def Let_def)

lemma findall_ints_skip:
  assumes "\<forall>c\<in>set p. \<not> is_digit db c \<and> c \<noteq> 45"
  shows "findall_ints db (p @ s) = findall_ints db s"
  using assms by (induction p) simp_all

lemma findall_ints_run:
  assumes "ds \<noteq> []" and "\<forall>d\<in>set ds. is_digit db d" and "rest = [] \<or> \<not> is_digit db (hd rest)"
  shows "findall_ints db (ds @ rest) = ds # findall_ints db rest"
proof -
  obtain d ds' where ds: "ds = d # ds'" using assms(1) by (cases ds) auto
  have "takeWhile (is_digit db) (ds' @ rest) = ds'" "dropWhile (is_digit db) (ds' @ rest) = rest"
    using takeWhile_digits_prefix [of ds' "is_digit db" rest] assms(2,3) ds by simp_all
  then show ?thesis using assms(2) ds by simp
qed

lemma findall_ints_minus_run:
  assumes "\<not> is_digit db 45"
      and "ds \<noteq> []" and "\<forall>d\<in>set ds. is_digit db d" and "rest = [] \<or> \<not> is_digit db (hd rest)"
  shows "findall_ints db (45 # ds @ rest) = (45 # ds) # findall_ints db rest"
proof -
  have "takeWhile (is_digit db) (ds @ rest) = ds" "dropWhile (is_digit db) (ds @ rest) = rest"
    using takeWhile_digits_prefix [of ds "is_digit db" rest] assms(3,4) by simp_all
  moreover have "is_digit db (hd (ds @ rest))" using assms(2,3) by (cases ds) auto
  ultimately show ?thesis using assms(1,2) by simp
qed

lemma str_nat_is_digit: "ascii_digits db \<Longrightarrow> \<forall>d\<in>set (str_nat n). is_digit db d"
  using str_nat_digits [of _ n] ascii_is_digit [of db] by fastforce

lemma digits_val_ascii:
  assumes "ascii_digits db" and "\<forall>c\<in>set ds. 48 \<le> c \<and> c \<le> 57"
  shows "digits_val db ds = foldl (\<lambda>a c. 10 * a + (c - 48)) 0 ds"
  unfolding digits_val_def using assms(2)
proof (induction ds rule: rev_induct)
  case Nil
  then show ?case by simp
next
  case (snoc x xs)
  then show ?case using ascii_digit_val [OF assms(1), of x] by simp
qed

lemma digits_val_str_nat: "ascii_digits db \<Longrightarrow> digits_val db (str_nat n) = n"
  using digits_val_ascii [of db "str_nat n"] str_nat_digits [of _ n] str_nat_value [of n] by simp

lemma parse_two_numbers:
  assumes a: "ascii_digits db"
      and pre: "pre = [] \<or> last pre = 47"
      and p: "\<forall>ch\<in>set p. \<not> is_digit db ch \<and> ch \<noteq> 45 \<and> ch \<noteq> 46 \<and> ch \<noteq> 47"
      and q: "\<forall>ch\<in>set q. \<not> is_digit db ch \<and> ch \<noteq> 45 \<and> ch \<noteq> 46 \<and> ch \<noteq> 47"
      and sep: "\<not> is_digit db sep \<and> sep \<noteq> 45 \<and> sep \<noteq> 46 \<and> sep \<noteq> 47"
      and ext: "46 \<notin> set ext" "47 \<notin> set ext"
  shows "parse_coords_from_name db (pre @ p @ str_nat r @ sep # str_nat c @ q @ 46 # ext) =
           Some (int r, int c)"
    and "parse_coords_from_name db (pre @ p @ 45 # str_nat r @ 45 # str_nat c @ q @ 46 # ext) =
           Some (- int r, - int c)"
proof -
  note m = minus_not_digit [OF a]
  have dig: "\<forall>d\<in>set (str_nat n). is_digit db d" for n by (rule str_nat_is_digit [OF a])
  have nd: "46 \<notin> set (str_nat n)" "47 \<notin> set (str_nat n)" for n
    using str_nat_digits [of _ n] by fastforce+
  have qh: "q @ s = [] \<or> \<not> is_digit db (hd (q @ s))" if "s = [] \<or> \<not> is_digit db (hd s)" for s
    using q that by (cases q) auto
  have fq: "findall_ints db q = []" using findall_ints_skip [of q db "[]"] q by simp
  have v: "digits_val db (str_nat n) = n" for n by (rule digits_val_str_nat [OF a])
  have pi: "py_int db (str_nat n) = int n" "py_int db (45 # str_nat n) = - int n" for n
    using py_int_run [OF m str_nat_nonempty dig, of n] v by simp_all
  let ?s1 = "p @ str_nat r @ sep # str_nat c @ q"
  let ?s2 = "p @ 45 # str_nat r @ 45 # str_nat c @ q"
  have ne: "\<exists>ch\<in>set (str_nat r). ch \<noteq> 46" using str_nat_nonempty [of r] nd(1) [of r]
    by (cases "str_nat r") auto
  have s1: "47 \<notin> set ?s1" "\<exists>ch\<in>set ?s1. ch \<noteq> 46" using p q sep nd ne by auto
  have s2: "47 \<notin> set ?s2" "\<exists>ch\<in>set ?s2. ch \<noteq> 46" using p q nd ne by auto
  have b1: "splitext_root (basename (pre @ ?s1 @ 46 # ext)) = ?s1"
    using basename_after_slash [of "?s1 @ 46 # ext" pre] pre s1 ext
      splitext_root_stem [OF s1(1) ext(2) ext(1) s1(2)] by simp
  have b2: "splitext_root (basename (pre @ ?s2 @ 46 # ext)) = ?s2"
    using basename_after_slash [of "?s2 @ 46 # ext" pre] pre s2 ext
      splitext_root_stem [OF s2(1) ext(2) ext(1) s2(2)] by simp
  have "findall_ints db (str_nat c @ q) = [str_nat c]"
    using findall_ints_run [OF str_nat_nonempty dig, of q c] qh [of "[]"] fq by simp
  then have "findall_ints db (sep # str_nat c @ q) = [str_nat c]" using sep by simp
  then have "findall_ints db (str_nat r @ sep # str_nat c @ q) = [str_nat r, str_nat c]"
    using findall_ints_run [OF str_nat_nonempty dig, of "sep # str_nat c @ q" r] sep by simp
  then have f1: "findall_ints db ?s1 = [str_nat r, str_nat c]"
    using findall_ints_skip [of p db "str_nat r @ sep # str_nat c @ q"] p by simp
  have "findall_ints db (45 # str_nat c @ q) = [45 # str_nat c]"
    using findall_ints_minus_run [OF m str_nat_nonempty dig, of q c] qh [of "[]"] fq by simp
  then have "findall_ints db (45 # str_nat r @ 45 # str_nat c @ q) = [45 # str_nat r, 45 # str_nat c]"
    using findall_ints_minus_run [OF m str_nat_nonempty dig, of "45 # str_nat c @ q" r] m by simp
  then have f2: "findall_ints db ?s2 = [45 # str_nat r, 45 # str_nat c]"
    using findall_ints_skip [of p db "45 # str_nat r @ 45 # str_nat c @ q"] p by simp
  show "parse_coords_from_name db (pre @ p @ str_nat r @ sep # str_nat c @ q @ 46 # ext) =
           Some (int r, int c)"
    using b1 f1 pi by (simp add: parse_coords_from_name_def Let_def)
  show "parse_coords_from_name db (pre @ p @ 45 # str_nat r @ 45 # str_nat c @ q @ 46 # ext) =
           Some (- int r, - int c)"
    using b2 f2 pi by (simp add: parse_coords_from_name_def Let_def)
qed

lemma find_snoc:
  "find P (xs @ [a]) = (case find P xs of None \<Rightarrow> (if P a then Some a else None) | Some b \<Rightarrow> Some b)"
  by (induction xs) auto

lemma arrange_loop_map_of:
  "arrange_loop db files (m, xs, ys) = Some (m', xs', ys') \<Longrightarrow>
     map_of m' k = (case find (\<lambda>f. coord_key db f = k) (rev files) of
                      Some f \<Rightarrow> Some f | None \<Rightarrow> map_of m k) \<and>
     (distinct (map fst m) \<longrightarrow> distinct (map fst m'))"
proof (induction files arbitrary: m xs ys)
  case Nil
  then show ?case by simp
next
  case (Cons f files)
  then obtain row col where pc: "parse_coords_from_name db f = Some (row, col)"
    by (auto split: option.splits)
  then have k: "coord_key db f = (col, row)" by (simp add: coord_key_def)
  from Cons.prems pc have
    "arrange_loop db files (AList.update (col, row) f m, insert col xs, insert row ys) = Some (m', xs', ys')"
    by simp
  from Cons.IH [OF this] show ?case using k
    by (auto simp: find_snoc update_conv' distinct_update split: option.splits)
qed

lemma two_scripts_ascii: "ascii_digits two_scripts"
  by (simp add: ascii_digits_def two_scripts_def)

lemma str_nat_small: "str_nat 0 = [48]" "str_nat 1 = [49]" "str_nat (Suc 0) = [49]"
  "str_nat 3 = [51]" "str_nat 5 = [53]"
  by (simp_all add: str_nat.simps digit_char_def)

lemma letters_not_digits:
  assumes "ascii_digits db"
  shows "\<forall>ch\<in>set (str_of ''tile_''). \<not> is_digit db ch \<and> ch \<noteq> 45 \<and> ch \<noteq> 46 \<and> ch \<noteq> 47"
    and "\<forall>ch\<in>set (str_of ''tile''). \<not> is_digit db ch \<and> ch \<noteq> 45 \<and> ch \<noteq> 46 \<and> ch \<noteq> 47"
    and "\<forall>ch\<in>set (str_of ''_brushed''). \<not> is_digit db ch \<and> ch \<noteq> 45 \<and> ch \<noteq> 46 \<and> ch \<noteq> 47"
    and "\<not> is_digit db 95 \<and> (95::nat) \<noteq> 45 \<and> (95::nat) \<noteq> 46 \<and> (95::nat) \<noteq> 47"
    and "46 \<notin> set (str_of ''png'')" and "47 \<notin> set (str_of ''png'')"
  by (simp_all add: ascii_is_digit [OF assms])

lemma parse_brushed_tile:
  assumes "ascii_digits db"
  shows "parse_coords_from_name db
           (str_of ''tile_'' @ str_nat r @ str_of ''_'' @ str_nat c @ str_of ''_brushed.png'') =
         Some (int r, int c)"
  using parse_two_numbers(1) [OF assms _ letters_not_digits(1,3,4,5,6) [OF assms], of "[]" r c]
  by simp

lemma parse_brushed_names:
  assumes "ascii_digits db"
  shows "map (parse_coords_from_name db) brushed_names =
           [Some (0, 0), Some (0, 1), Some (1, 0), Some (1, 1)]"
  using parse_brushed_tile [OF assms, of 0 0] parse_brushed_tile [OF assms, of 0 1]
    parse_brushed_tile [OF assms, of 1 0] parse_brushed_tile [OF assms, of 1 1]
  by (simp add: brushed_names_def str_nat_small)

lemma arrange_brushed_names:
  assumes "ascii_digits db"
  shows "arrange_by_coords db brushed_names =
     Some ([((0, 0), str_of ''tile_0_0_brushed.png''), ((1, 0), str_of ''tile_0_1_brushed.png''),
            ((0, 1), str_of ''tile_1_0_brushed.png''), ((1, 1), str_of ''tile_1_1_brushed.png'')],
           0, 0, 1, 1)"
  using parse_brushed_names [OF assms]
  by (simp add: arrange_by_coords_def brushed_names_def Let_def)

lemma parse_arabic_name:
  "parse_coords_from_name two_scripts arabic_name = Some (3, 5)"
  by code_simp

text \<open>
  Claim C6, as the code has it. For every Unicode database \<open>db\<close> that agrees with ASCII
  on the code points below 128, \<^verbatim>\<open>parse_coords_from_name\<close> reads the base name of the file
  (what follows the last slash, without the extension) as follows. Every maximal run of
  decimal digits is one match of the pattern, together with the hyphen that stands
  immediately before it, if there is one; a run is read as a decimal number, and negated
  when a hyphen stands immediately before it. With at least two runs the last two,
  read so, are \<open>(row, col)\<close> in that order; on a base name without a hyphen these are the
  last two digit runs read as numbers; a name gives nothing exactly when its base name
  has fewer than two digit runs. So for numbers \<open>r\<close> and \<open>c\<close> written in decimal, a name
  \<open>pre p r sep c q . ext\<close> gives \<open>(r, c)\<close> and the name \<open>pre p - r - c q . ext\<close> gives
  \<open>(- r, - c)\<close>, where \<open>pre\<close> is empty or ends in a slash, \<open>p\<close>, \<open>q\<close> and \<open>sep\<close> hold no digit,
  hyphen, dot or slash, and \<open>ext\<close> holds no dot or slash.

  \<^verbatim>\<open>arrange_by_coords\<close> gives nothing exactly when the list is empty or some name has fewer
  than two digit runs. When it succeeds, the keys of the mapping are the \<open>(col, row)\<close> of the
  files, each key occurs once and holds the last file of the list with these
  coordinates, and the extents are the least and greatest column and row; when the
  coordinates of the files differ from each other, the mapping lists the files in their
  order, each under its \<open>(col, row)\<close>. The four brushed tiles of a 2 x 2 grid are read as
  \<open>(0,0), (0,1), (1,0), (1,1)\<close> and arranged with extents \<open>(0, 0, 1, 1)\<close>. With a database
  that also knows the Arabic-Indic digits, a name whose coordinates are the
  Arabic-Indic digits three and five gives \<open>(3, 5)\<close>.
\<close>

theorem primary_strategy:
  fixes name s pre p q ext :: py_str and files :: "py_str list" and sep r c :: nat
  assumes "ascii_digits db"
  defines "base \<equiv> splitext_root (basename name)"
  shows "parse_coords_from_name db name = coords_by_signed_runs db name \<and>
    findall_ints db s =
      map (\<lambda>(negative, run). if negative then 45 # run else run) (signed_runs db False s) \<and>
    map snd (signed_runs db False s) = digit_runs db s \<and>
    (45 \<notin> set base \<longrightarrow> parse_coords_from_name db name = coords_by_digit_runs db name) \<and>
    (parse_coords_from_name db name = None \<longleftrightarrow> length (digit_runs db base) < 2) \<and>
    ((pre = [] \<or> last pre = 47) \<and>
     (\<forall>ch\<in>set p. \<not> is_digit db ch \<and> ch \<noteq> 45 \<and> ch \<noteq> 46 \<and> ch \<noteq> 47) \<and>
     (\<forall>ch\<in>set q. \<not> is_digit db ch \<and> ch \<noteq> 45 \<and> ch \<noteq> 46 \<and> ch \<noteq> 47) \<and>
     (\<not> is_digit db sep \<and> sep \<noteq> 45 \<and> sep \<noteq> 46 \<and> sep \<noteq> 47) \<and>
     46 \<notin> set ext \<and> 47 \<notin> set ext \<longrightarrow>
       parse_coords_from_name db (pre @ p @ str_nat r @ sep # str_nat c @ q @ 46 # ext) =
         Some (int r, int c) \<and>
       parse_coords_from_name db (pre @ p @ 45 # str_nat r @ 45 # str_nat c @ q @ 46 # ext) =
         Some (- int r, - int c)) \<and>
    (arrange_by_coords db files = None \<longleftrightarrow>
       files = [] \<or> (\<exists>f\<in>set files. length (digit_runs db (splitext_root (basename f))) < 2)) \<and>
    (arrange_by_coords db files = Some (mapping, min_x, min_y, max_x, max_y) \<longrightarrow>
       fst ` set mapping = coord_key db ` set files \<and>
       distinct (map fst mapping) \<and>
       map_of mapping k = find (\<lambda>f. coord_key db f = k) (rev files) \<and>
       min_x = Min (fst ` coord_key db ` set files) \<and> max_x = Max (fst ` coord_key db ` set files) \<and>
       min_y = Min (snd ` coord_key db ` set files) \<and> max_y = Max (snd ` coord_key db ` set files)) \<and>
    (files \<noteq> [] \<and> (\<forall>f\<in>set files. parse_coords_from_name db f \<noteq> None) \<and>
     distinct (map (coord_key db) files) \<longrightarrow>
       arrange_by_coords db files =
         Some (map (\<lambda>f. (coord_key db f, f)) files,
               Min (fst ` coord_key db ` set files), Min (snd ` coord_key db ` set files),
               Max (fst ` coord_key db ` set files), Max (snd ` coord_key db ` set files))) \<and>
    map (parse_coords_from_name db) brushed_names =
      [Some (0, 0), Some (0, 1), Some (1, 0), Some (1, 1)] \<and>
    arrange_by_coords db brushed_names =
      Some ([((0, 0), str_of ''tile_0_0_brushed.png''), ((1, 0), str_of ''tile_0_1_brushed.png''),
             ((0, 1), str_of ''tile_1_0_brushed.png''), ((1, 1), str_of ''tile_1_1_brushed.png'')],
            0, 0, 1, 1) \<and>
    parse_coords_from_name two_scripts arabic_name = Some (3, 5)"
proof (intro conjI)
  note m = minus_not_digit [OF assms(1)]
  show "parse_coords_from_name db name = coords_by_signed_runs db name"
    by (rule parse_coords_signed_runs [OF m])
  show "findall_ints db s =
      map (\<lambda>(negative, run). if negative then 45 # run else run) (signed_runs db False s)"
    by (rule findall_ints_signed_runs [OF m]) simp
  show "map snd (signed_runs db False s) = digit_runs db s"
    by (rule signed_runs_digit_runs)
  show "45 \<notin> set base \<longrightarrow> parse_coords_from_name db name = coords_by_digit_runs db name"
    unfolding base_def
    using parse_coords_signed_runs [OF m, of name] signed_runs_coords_no_minus [of name db] by simp
  show "parse_coords_from_name db name = None \<longleftrightarrow> length (digit_runs db base) < 2"
    unfolding base_def by (rule parse_coords_None_iff [OF m])
  show "(pre = [] \<or> last pre = 47) \<and>
     (\<forall>ch\<in>set p. \<not> is_digit db ch \<and> ch \<noteq> 45 \<and> ch \<noteq> 46 \<and> ch \<noteq> 47) \<and>
     (\<forall>ch\<in>set q. \<not> is_digit db ch \<and> ch \<noteq> 45 \<and> ch \<noteq> 46 \<and> ch \<noteq> 47) \<and>
     (\<not> is_digit db sep \<and> sep \<noteq> 45 \<and> sep \<noteq> 46 \<and> sep \<noteq> 47) \<and>
     46 \<notin> set ext \<and> 47 \<notin> set ext \<longrightarrow>
       parse_coords_from_name db (pre @ p @ str_nat r @ sep # str_nat c @ q @ 46 # ext) =
         Some (int r, int c) \<and>
       parse_coords_from_name db (pre @ p @ 45 # str_nat r @ 45 # str_nat c @ q @ 46 # ext) =
         Some (- int r, - int c)"
    using parse_two_numbers [OF assms(1), of pre p q sep ext r c] by blast
  show "arrange_by_coords db files = None \<longleftrightarrow>
       files = [] \<or> (\<exists>f\<in>set files. length (digit_runs db (splitext_root (basename f))) < 2)"
    by (simp only: arrange_by_coords_None_iff parse_coords_None_iff [OF m])
  show "arrange_by_coords db files = Some (mapping, min_x, min_y, max_x, max_y) \<longrightarrow>
       fst ` set mapping = coord_key db ` set files \<and>
       distinct (map fst mapping) \<and>
       map_of mapping k = find (\<lambda>f. coord_key db f = k) (rev files) \<and>
       min_x = Min (fst ` coord_key db ` set files) \<and> max_x = Max (fst ` coord_key db ` set files) \<and>
       min_y = Min (snd ` coord_key db ` set files) \<and> max_y = Max (snd ` coord_key db ` set files)"
  proof
    assume a: "arrange_by_coords db files = Some (mapping, min_x, min_y, max_x, max_y)"
    then obtain xs ys where l: "arrange_loop db files ([], {}, {}) = Some (mapping, xs, ys)"
      by (auto simp: arrange_by_coords_def Let_def split: option.splits if_splits)
    have "map_of mapping k = find (\<lambda>f. coord_key db f = k) (rev files)" "distinct (map fst mapping)"
      using arrange_loop_map_of [OF l, of k] by (simp_all split: option.splits)
    then show "fst ` set mapping = coord_key db ` set files \<and>
       distinct (map fst mapping) \<and>
       map_of mapping k = find (\<lambda>f. coord_key db f = k) (rev files) \<and>
       min_x = Min (fst ` coord_key db ` set files) \<and> max_x = Max (fst ` coord_key db ` set files) \<and>
       min_y = Min (snd ` coord_key db ` set files) \<and> max_y = Max (snd ` coord_key db ` set files)"
      using arrange_by_coords_Some [OF a] by simp
  qed
  show "files \<noteq> [] \<and> (\<forall>f\<in>set files. parse_coords_from_name db f \<noteq> None) \<and>
     distinct (map (coord_key db) files) \<longrightarrow>
       arrange_by_coords db files =
         Some (map (\<lambda>f. (coord_key db f, f)) files,
               Min (fst ` coord_key db ` set files), Min (snd ` coord_key db ` set files),
               Max (fst ` coord_key db ` set files), Max (snd ` coord_key db ` set files))"
    using arrange_by_coords_distinct [of files db] by blast
  show "map (parse_coords_from_name db) brushed_names =
      [Some (0, 0), Some (0, 1), Some (1, 0), Some (1, 1)]"
    by (rule parse_brushed_names [OF assms(1)])
  show "arrange_by_coords db brushed_names =
      Some ([((0, 0), str_of ''tile_0_0_brushed.png''), ((1, 0), str_of ''tile_0_1_brushed.png''),
             ((0, 1), str_of ''tile_1_0_brushed.png''), ((1, 1), str_of ''tile_1_1_brushed.png'')],
            0, 0, 1, 1)"
    by (rule arrange_brushed_names [OF assms(1)])
  show "parse_coords_from_name two_scripts arabic_name = Some (3, 5)"
    by (rule parse_arabic_name)
qed

lemma brushed_names_parsed:
  "brushed_names \<noteq> [] \<and> (\<forall>f\<in>set brushed_names. parse_coords_from_name two_scripts f \<noteq> None) \<and>
   distinct (map (coord_key two_scripts) brushed_names)"
  by code_simp

lemma sample_name_parts:
  "(str_of ''out2/'' = [] \<or> last (str_of ''out2/'') = 47) \<and>
   (\<forall>ch\<in>set (str_of ''tile''). \<not> is_digit two_scripts ch \<and> ch \<noteq> 45 \<and> ch \<noteq> 46 \<and> ch \<noteq> 47) \<and>
   (\<forall>ch\<in>set (str_of ''_brushed''). \<not> is_digit two_scripts ch \<and> ch \<noteq> 45 \<and> ch \<noteq> 46 \<and> ch \<noteq> 47) \<and>
   (\<not> is_digit two_scripts 95 \<and> (95::nat) \<noteq> 45 \<and> (95::nat) \<noteq> 46 \<and> (95::nat) \<noteq> 47) \<and>
   46 \<notin> set (str_of ''png'') \<and> 47 \<notin> set (str_of ''png'')"
  by code_simp

lemma sample_name_no_hyphen:
  "45 \<notin> set (splitext_root (basename (str_of ''tile_0_1_brushed.png'')))"
  by code_simp

theorem primary_strategy_witness:
  "45 \<notin> set (splitext_root (basename (str_of ''tile_0_1_brushed.png''))) \<and>
   parse_coords_from_name two_scripts (str_of ''tile_0_1_brushed.png'') =
     coords_by_digit_runs two_scripts (str_of ''tile_0_1_brushed.png'') \<and>
   parse_coords_from_name two_scripts
     (str_of ''out2/'' @ str_of ''tile'' @ str_nat 3 @ 95 # str_nat 5 @ str_of ''_brushed'' @ 46 # str_of ''png'') =
     Some (3, 5) \<and>
   parse_coords_from_name two_scripts
     (str_of ''out2/'' @ str_of ''tile'' @ 45 # str_nat 3 @ 45 # str_nat 5 @ str_of ''_brushed'' @ 46 # str_of ''png'') =
     Some (- 3, - 5) \<and>
   arrange_by_coords two_scripts brushed_names =
      Some ([((0, 0), str_of ''tile_0_0_brushed.png''), ((1, 0), str_of ''tile_0_1_brushed.png''),
             ((0, 1), str_of ''tile_1_0_brushed.png''), ((1, 1), str_of ''tile_1_1_brushed.png'')],
            0, 0, 1, 1) \<and>
   (0::int) = Min (fst ` coord_key two_scripts ` set brushed_names) \<and>
   (1::int) = Max (snd ` coord_key two_scripts ` set brushed_names) \<and>
   distinct (map (coord_key two_scripts) brushed_names) \<and>
   arrange_by_coords two_scripts brushed_names =
     Some (map (\<lambda>f. (coord_key two_scripts f, f)) brushed_names,
           Min (fst ` coord_key two_scripts ` set brushed_names),
           Min (snd ` coord_key two_scripts ` set brushed_names),
           Max (fst ` coord_key two_scripts ` set brushed_names),
           Max (snd ` coord_key two_scripts ` set brushed_names))"
proof -
  note t = primary_strategy [OF two_scripts_ascii,
      where name = "str_of ''tile_0_1_brushed.png''" and s = "str_of ''tile-3-5_brushed''"
        and pre = "str_of ''out2/''" and p = "str_of ''tile''" and q = "str_of ''_brushed''"
        and sep = 95 and ext = "str_of ''png''" and r = 3 and c = 5 and files = brushed_names
        and mapping = "[((0, 0), str_of ''tile_0_0_brushed.png''), ((1, 0), str_of ''tile_0_1_brushed.png''),
             ((0, 1), str_of ''tile_1_0_brushed.png''), ((1, 1), str_of ''tile_1_1_brushed.png'')]"
        and min_x = 0 and min_y = 0 and max_x = 1 and max_y = 1 and k = "(1, 0)"]
  note t3 = t [THEN conjunct2, THEN conjunct2, THEN conjunct2]
  note t5 = t3 [THEN conjunct2, THEN conjunct2]
  note t7 = t5 [THEN conjunct2, THEN conjunct2]
  note t9 = t7 [THEN conjunct2, THEN conjunct2]
  have h1: "parse_coords_from_name two_scripts (str_of ''tile_0_1_brushed.png'') =
     coords_by_digit_runs two_scripts (str_of ''tile_0_1_brushed.png'')"
    by (rule t3 [THEN conjunct1, THEN mp, OF sample_name_no_hyphen])
  note h2 = t5 [THEN conjunct1, THEN mp, OF sample_name_parts]
  have h2a: "parse_coords_from_name two_scripts
     (str_of ''out2/'' @ str_of ''tile'' @ str_nat 3 @ 95 # str_nat 5 @ str_of ''_brushed'' @ 46 # str_of ''png'') =
     Some (3, 5)"
    using h2 [THEN conjunct1] by simp
  have h2b: "parse_coords_from_name two_scripts
     (str_of ''out2/'' @ str_of ''tile'' @ 45 # str_nat 3 @ 45 # str_nat 5 @ str_of ''_brushed'' @ 46 # str_of ''png'') =
     Some (- 3, - 5)"
    using h2 [THEN conjunct2] by simp
  have h3: "arrange_by_coords two_scripts brushed_names =
      Some ([((0, 0), str_of ''tile_0_0_brushed.png''), ((1, 0), str_of ''tile_0_1_brushed.png''),
             ((0, 1), str_of ''tile_1_0_brushed.png''), ((1, 1), str_of ''tile_1_1_brushed.png'')],
            0, 0, 1, 1)"
    by (rule t9 [THEN conjunct2, THEN conjunct1])
  note h4 = t7 [THEN conjunct1, THEN mp, OF h3]
  note h5 = t7 [THEN conjunct2, THEN conjunct1, THEN mp, OF brushed_names_parsed]
  show ?thesis
    by (intro conjI sample_name_no_hyphen h1
          h2a h2b h3
          h4 [THEN conjunct2, THEN conjunct2, THEN conjunct2, THEN conjunct1]
          h4 [THEN conjunct2, THEN conjunct2, THEN conjunct2, THEN conjunct2, THEN conjunct2, THEN conjunct2]
          brushed_names_parsed [THEN conjunct2, THEN conjunct2] h5)
qed

text \<open>
  Claim C6 as the specification states it fails on a name whose digit runs follow
  hyphens: the last two digit runs of \<^verbatim>\<open>tile-3-5_brushed.png\<close> read as numbers are
  \<open>(3, 5)\<close>, and the code, which reads the hyphens as minus signs, gives \<open>(-3, -5)\<close>. The
  name is ASCII, so the database does not matter.
\<close>

theorem hyphen_read_as_minus:
  "parse_coords_from_name two_scripts hyphen_name = Some (- 3, - 5) \<and>
   coords_by_digit_runs two_scripts hyphen_name = Some (3, 5)"
  by code_simp

end
